theory Spec2Isabelle
  imports Complex_Main "HOL-Library.Log_Nat"
begin

section \<open>Data model\<close>

text \<open>
  A Python \<open>str\<close> is a sequence of Unicode code points; the markers and the character
  classes of \<open>main.py\<close> are Cyrillic, so a string is a list of code points.
\<close>

type_synonym str = "nat list"

definition ascii :: "string \<Rightarrow> str" where
  "ascii s = map of_char s"

text \<open>The exceptions the modelled functions can raise.\<close>

datatype py_error = TypeError | KeyError | ZeroDivisionError | IndexError

text \<open>
  A Python \<open>dict\<close> keeps its keys in insertion order; assigning to a key that is present
  replaces the value where the key stands, assigning to a new key appends it.
\<close>

type_synonym ('k, 'v) dict = "('k \<times> 'v) list"

fun dict_get :: "('k, 'v) dict \<Rightarrow> 'k \<Rightarrow> 'v option" where
  "dict_get [] k = None"
| "dict_get ((k', v) # d) k = (if k' = k then Some v else dict_get d k)"

fun dict_set :: "('k, 'v) dict \<Rightarrow> 'k \<Rightarrow> 'v \<Rightarrow> ('k, 'v) dict" where
  "dict_set [] k v = [(k, v)]"
| "dict_set ((k', v') # d) k v = (if k' = k then (k, v) # d else (k', v') # dict_set d k v)"

definition keys :: "('k, 'v) dict \<Rightarrow> 'k list" where
  "keys d = map fst d"

text \<open>\<open>dict(pairs)\<close>: the pairs are assigned one after the other.\<close>

definition dict_of_items :: "('k \<times> 'v) list \<Rightarrow> ('k, 'v) dict" where
  "dict_of_items items = foldl (\<lambda>d (k, v). dict_set d k v) [] items"

text \<open>\<open>Counter(xs)\<close>: one pass over \<open>xs\<close>, a missing key counts as 0.\<close>

definition counter_get :: "('k, int) dict \<Rightarrow> 'k \<Rightarrow> int" where
  "counter_get c k = (case dict_get c k of None \<Rightarrow> 0 | Some n \<Rightarrow> n)"

definition Counter :: "'k list \<Rightarrow> ('k, int) dict" where
  "Counter xs = foldl (\<lambda>c x. dict_set c x (counter_get c x + 1)) [] xs"

section \<open>Floating-point numbers\<close>

text \<open>
  A Python float is an IEEE 754 double: a rational \<open>m * 2 ^ k\<close> with an integer
  \<open>m\<close> of at most 53 bits. The true division of two integers and the product of two
  floats are the exact results rounded to the nearest double, a tie to the even
  significand. \<open>float_exponent x\<close> is the exponent \<open>e\<close> with
  \<open>2 ^ e \<le> |x| < 2 ^ (e + 1)\<close>, and doubles of that size are \<open>2 ^ (e - 52)\<close> apart.
  The exponent is not bounded here: a list has fewer than \<open>2 ^ 63\<close> elements, so the
  quotients and products of counts and lengths that the program computes stay far inside
  the range of a double, where neither overflow nor a subnormal result occurs.
\<close>

definition round_half_even :: "rat \<Rightarrow> int" where
  "round_half_even x =
     (let f = \<lfloor>x\<rfloor>; d = x - of_int f
      in if d < 1 / 2 then f else if 1 / 2 < d then f + 1 else if even f then f else f + 1)"

definition float_exponent :: "rat \<Rightarrow> int" where
  "float_exponent x =
     (case quotient_of \<bar>x\<bar> of (p, q) \<Rightarrow>
        let d = bitlen p - bitlen q in if 2 powi d \<le> \<bar>x\<bar> then d else d - 1)"

definition float_round :: "rat \<Rightarrow> rat" where
  "float_round x =
     (if x = 0 then 0
      else let ulp = 2 powi (float_exponent x - 52)
           in of_int (round_half_even (x / ulp)) * ulp)"

text \<open>\<open>a / b\<close> on integers with \<open>b\<close> not 0, and \<open>x * y\<close> on floats.\<close>

definition float_div :: "int \<Rightarrow> int \<Rightarrow> rat" where
  "float_div a b = float_round (of_int a / of_int b)"

definition float_mul :: "rat \<Rightarrow> rat \<Rightarrow> rat" where
  "float_mul x y = float_round (x * y)"

section \<open>TF-IDF engine\<close>

text \<open>
  \<open>count_number_of_articles_with_all_words\<close> (lines 137 to 148 of \<open>main.py\<close>).
  \<open>reduce(lambda x, y: x + y, articles)\<close> has no initial value: on an empty list it
  raises \<open>TypeError\<close>, otherwise it folds from the first element.
\<close>

fun reduce_concat :: "'a list list \<Rightarrow> py_error + 'a list" where
  "reduce_concat [] = Inl TypeError"
| "reduce_concat (x # xs) = Inr (foldl (\<lambda>x y. x @ y) x xs)"

text \<open>
  The body of the inner loop, \<open>for article in articles\<close>: the entry of a word that is
  in the article is incremented, or set to 1 when the word has no entry yet.
\<close>

definition count_word_in_article :: "'k \<Rightarrow> ('k, int) dict \<Rightarrow> 'k list \<Rightarrow> ('k, int) dict" where
  "count_word_in_article word d article =
     (if word \<in> set article
      then (case dict_get d word of
              Some n \<Rightarrow> dict_set d word (n + 1)
            | None \<Rightarrow> dict_set d word 1)
      else d)"

definition count_number_of_articles_with_all_words ::
  "'k list list \<Rightarrow> py_error + ('k, int) dict" where
  "count_number_of_articles_with_all_words articles =
     (case reduce_concat articles of
        Inl e \<Rightarrow> Inl e
      | Inr all_words \<Rightarrow>
          Inr (foldl (\<lambda>d word. foldl (count_word_in_article word) d articles)
                 [] (keys (Counter all_words))))"

text \<open>
  \<open>calculate_tf_idf\<close> (lines 109 to 125). Scores are Python floats, the rationals
  that \<open>float_round\<close> returns. \<open>/\<close> on two integers raises \<open>ZeroDivisionError\<close> for
  a zero divisor and is the rounded quotient otherwise; a key missing from a plain dict
  raises \<open>KeyError\<close>.
\<close>

definition true_div :: "int \<Rightarrow> int \<Rightarrow> py_error + rat" where
  "true_div a b = (if b = 0 then Inl ZeroDivisionError else Inr (float_div a b))"

definition dict_index :: "('k, 'v) dict \<Rightarrow> 'k \<Rightarrow> py_error + 'v" where
  "dict_index d k = (case dict_get d k of None \<Rightarrow> Inl KeyError | Some v \<Rightarrow> Inr v)"

text \<open>
  The loop \<open>for word in word_frequency\<close>: \<open>tf\<close> is computed first, then the
  document frequency is looked up and \<open>idf\<close> is computed.
\<close>

fun score_words ::
  "('k, int) dict \<Rightarrow> int \<Rightarrow> int \<Rightarrow> ('k, int) dict \<Rightarrow> 'k list \<Rightarrow> ('k, rat) dict
   \<Rightarrow> py_error + ('k, rat) dict" where
  "score_words word_frequency number_of_words number_of_articles df [] article_tf_idfs =
     Inr article_tf_idfs"
| "score_words word_frequency number_of_words number_of_articles df (word # ws) article_tf_idfs =
     (case true_div (counter_get word_frequency word) number_of_words of
        Inl e \<Rightarrow> Inl e
      | Inr tf \<Rightarrow>
          (case dict_index df word of
             Inl e \<Rightarrow> Inl e
           | Inr m \<Rightarrow>
               (case true_div number_of_articles m of
                  Inl e \<Rightarrow> Inl e
                | Inr idf \<Rightarrow>
                    score_words word_frequency number_of_words number_of_articles df ws
                      (dict_set article_tf_idfs word (float_mul tf idf)))))"

text \<open>The body of the loop \<open>for article in lemmatized_articles\<close>.\<close>

definition score_article ::
  "int \<Rightarrow> ('k, int) dict \<Rightarrow> 'k list \<Rightarrow> py_error + ('k, rat) dict" where
  "score_article number_of_articles df article =
     (let word_frequency = Counter article;
          number_of_words = int (length article)
      in score_words word_frequency number_of_words number_of_articles df
           (keys word_frequency) [])"

text \<open>The loop itself; the first exception ends it.\<close>

fun score_articles ::
  "int \<Rightarrow> ('k, int) dict \<Rightarrow> 'k list list \<Rightarrow> ('k, rat) dict list
   \<Rightarrow> py_error + ('k, rat) dict list" where
  "score_articles number_of_articles df [] tf_idfs = Inr tf_idfs"
| "score_articles number_of_articles df (article # rest) tf_idfs =
     (case score_article number_of_articles df article of
        Inl e \<Rightarrow> Inl e
      | Inr article_tf_idfs \<Rightarrow>
          score_articles number_of_articles df rest (tf_idfs @ [article_tf_idfs]))"

text \<open>
  \<open>sort_tf_idfs\<close> (lines 128 to 134). \<open>sorted\<close> is a stable sort on the key
  \<open>-x[1]\<close>; a stable sort has one result, which the insertion sort \<open>sort_key\<close>
  computes.
\<close>

definition sort_tf_idfs :: "('k, rat) dict list \<Rightarrow> ('k, rat) dict list" where
  "sort_tf_idfs tf_idfs =
     map (\<lambda>article. dict_of_items (sort_key (\<lambda>x. - snd x) article)) tf_idfs"

definition calculate_tf_idf :: "'k list list \<Rightarrow> py_error + ('k, rat) dict list" where
  "calculate_tf_idf lemmatized_articles =
     (case count_number_of_articles_with_all_words lemmatized_articles of
        Inl e \<Rightarrow> Inl e
      | Inr number_of_articles_with_word \<Rightarrow>
          (case score_articles (int (length lemmatized_articles))
                  number_of_articles_with_word lemmatized_articles [] of
             Inl e \<Rightarrow> Inl e
           | Inr tf_idfs \<Rightarrow> Inr (sort_tf_idfs tf_idfs)))"

section \<open>Formatting\<close>

text \<open>
  \<open>format_tf_idf\<close> (lines 151 to 162). \<open>str(n)\<close> for an integer: decimal digits, a
  minus sign before a negative number.
\<close>

fun str_nat :: "nat \<Rightarrow> str" where
  "str_nat n = (if n < 10 then [48 + n] else str_nat (n div 10) @ [48 + n mod 10])"

definition str_int :: "int \<Rightarrow> str" where
  "str_int i = (if i < 0 then 45 # str_nat (nat (- i)) else str_nat (nat i))"

text \<open>
  \<open>round(x, ndigits)\<close> rounds the exact value of the float \<open>x\<close> to the nearest
  multiple of \<open>10 ^ -ndigits\<close>, a tie to the even one.
\<close>

definition py_round :: "rat \<Rightarrow> nat \<Rightarrow> rat" where
  "py_round x ndigits = of_int (round_half_even (x * 10 ^ ndigits)) / 10 ^ ndigits"

text \<open>\<open>xs[:n]\<close>: a negative \<open>n\<close> counts from the end.\<close>

definition slice_to :: "'a list \<Rightarrow> int \<Rightarrow> 'a list" where
  "slice_to xs n = (if n < 0 then take (nat (int (length xs) + n)) xs else take (nat n) xs)"

text \<open>\<open>terms[:article_limit]\<close>, the entries the inner loop of \<open>format_tf_idf\<close> prints.\<close>

definition emitted_terms :: "('k, 'v) dict \<Rightarrow> int \<Rightarrow> ('k \<times> 'v) list" where
  "emitted_terms article limit =
     (let terms = article;
          article_limit = (if int (length terms) < limit then int (length terms) else limit)
      in slice_to terms article_limit)"

text \<open>
  The text of a float is produced by Python's float formatting, which is not part of the
  repository: \<open>float_str\<close> is a parameter of the formatter.
\<close>

text \<open>The body of the loop \<open>for word, tf_idf in terms[:article_limit]\<close>.\<close>

definition format_term :: "(rat \<Rightarrow> str) \<Rightarrow> str \<Rightarrow> str \<times> rat \<Rightarrow> str" where
  "format_term float_str result term =
     (case term of (word, tf_idf) \<Rightarrow>
        result @ word @ [58, 32] @ float_str (py_round tf_idf 5) @ [10])"

text \<open>The header line, with line feeds before and after it.\<close>

definition article_header :: "nat \<Rightarrow> str" where
  "article_header index = [10] @ ascii ''Article '' @ str_int (int index + 1) @ [10]"

text \<open>The body of the loop \<open>for index, article in enumerate(tf_idfs)\<close>.\<close>

definition format_article ::
  "(rat \<Rightarrow> str) \<Rightarrow> int \<Rightarrow> str \<Rightarrow> nat \<times> (str, rat) dict \<Rightarrow> str" where
  "format_article float_str limit result entry =
     (case entry of (index, article) \<Rightarrow>
        foldl (format_term float_str) (result @ article_header index)
          (emitted_terms article limit))"

definition format_tf_idf :: "(rat \<Rightarrow> str) \<Rightarrow> (str, rat) dict list \<Rightarrow> int \<Rightarrow> str" where
  "format_tf_idf float_str tf_idfs limit =
     foldl (format_article float_str limit) [] (enumerate 0 tf_idfs)"

section \<open>Regular expressions of the source\<close>

text \<open>
  Both patterns of the source are sequences of one-character matchers; a pattern is the
  list of its character classes. \<open>match_here\<close> is a match that starts at the first
  character of the text.
\<close>

type_synonym pattern = "(nat \<Rightarrow> bool) list"

fun match_here :: "pattern \<Rightarrow> str \<Rightarrow> bool" where
  "match_here [] text = True"
| "match_here (p # ps) [] = False"
| "match_here (p # ps) (c # cs) = (p c \<and> match_here ps cs)"

text \<open>\<open>re.search\<close>: is there a match at some position, tried from left to right.\<close>

fun re_search :: "pattern \<Rightarrow> str \<Rightarrow> bool" where
  "re_search pat [] = match_here pat []"
| "re_search pat (c # cs) = (match_here pat (c # cs) \<or> re_search pat cs)"

text \<open>
  \<open>re.split\<close> for a non-empty pattern without groups: scan from the left, cut at every
  match and go on behind it. \<open>piece\<close> is the text since the last cut.
\<close>

function re_split_from :: "pattern \<Rightarrow> str \<Rightarrow> str \<Rightarrow> str list" where
  "re_split_from pat piece [] = [piece]"
| "re_split_from pat piece (c # cs) =
     (if match_here pat (c # cs)
      then piece # re_split_from pat [] (drop (length pat - 1) cs)
      else re_split_from pat (piece @ [c]) cs)"
  by pat_completeness auto
termination
  by (relation "measure (\<lambda>(pat, piece, text). length text)") auto

definition re_split :: "pattern \<Rightarrow> str \<Rightarrow> str list" where
  "re_split pat text = re_split_from pat [] text"

definition lit :: "nat \<Rightarrow> nat \<Rightarrow> bool" where
  "lit c x = (x = c)"

text \<open>
  \<open>\d\<close> matches the decimal digits of Unicode, a table of the Python runtime; it is the
  parameter \<open>decimal\<close>. \<open>ascii_decimal\<close> are the digits 0 to 9, which every version of
  the table contains.
\<close>

definition ascii_decimal :: "nat \<Rightarrow> bool" where
  "ascii_decimal c = (48 \<le> c \<and> c \<le> 57)"

definition start_marker :: "(nat \<Rightarrow> bool) \<Rightarrow> pattern" where
  "start_marker decimal =
     [lit 1059, lit 1044, lit 1050, lit 32, decimal, decimal, decimal, lit 46]"

definition end_marker :: pattern where
  "end_marker = map lit [1057, 1055, 1048, 1057, 1054, 1050, 32,
                         1051, 1048, 1058, 1045, 1056, 1040, 1058, 1059, 1056, 1067]"

section \<open>Article segmenter\<close>

text \<open>
  \<open>split_text_into_articles\<close> (lines 36 to 43). \<open>xs[0]\<close> raises \<open>IndexError\<close> on an
  empty list; \<open>truncate_articles\<close> is the loop over \<open>splitted_text[1:]\<close>.
\<close>

definition first_item :: "'a list \<Rightarrow> py_error + 'a" where
  "first_item xs = (case xs of [] \<Rightarrow> Inl IndexError | x # _ \<Rightarrow> Inr x)"

fun truncate_articles :: "str list \<Rightarrow> str list \<Rightarrow> py_error + str list" where
  "truncate_articles [] articles = Inr articles"
| "truncate_articles (article # rest) articles =
     (case first_item (re_split end_marker article) of
        Inl e \<Rightarrow> Inl e
      | Inr article' \<Rightarrow> truncate_articles rest (articles @ [article']))"

definition split_text_into_articles :: "(nat \<Rightarrow> bool) \<Rightarrow> str \<Rightarrow> py_error + str list" where
  "split_text_into_articles decimal text =
     (let splitted_text = re_split (start_marker decimal) text
      in truncate_articles (drop 1 splitted_text) [])"

section \<open>Token normalizer\<close>

text \<open>
  \<open>remove_non_alphabetical_words\<close> (lines 88 to 94). The character class of its two
  patterns has four ranges of code points, a to z, A to Z, U+0430 to U+044F and U+0410 to
  U+042F, and the hyphen; the second pattern is the negated class.
\<close>

definition alphabetical :: "nat \<Rightarrow> bool" where
  "alphabetical c =
     ((97 \<le> c \<and> c \<le> 122) \<or> (65 \<le> c \<and> c \<le> 90) \<or>
      (1072 \<le> c \<and> c \<le> 1103) \<or> (1040 \<le> c \<and> c \<le> 1071) \<or> c = 45)"

definition non_alphabetical :: "nat \<Rightarrow> bool" where
  "non_alphabetical c = (\<not> alphabetical c)"

text \<open>The condition of the \<open>if\<close> in the loop.\<close>

definition is_alphabetical_word :: "str \<Rightarrow> bool" where
  "is_alphabetical_word word =
     (re_search [alphabetical] word \<and> \<not> re_search [non_alphabetical] word)"

definition remove_non_alphabetical_words :: "str list \<Rightarrow> str list" where
  "remove_non_alphabetical_words words =
     foldl (\<lambda>filtered_words word.
              if is_alphabetical_word word then filtered_words @ [word] else filtered_words)
       [] words"

text \<open>
  \<open>remove_stop_words\<close> and \<open>remove_junk_from_articles\<close> (lines 68 to 85). The stop
  word list comes from NLTK; it is the parameter \<open>stop_words\<close>.
\<close>

definition remove_stop_words :: "str list \<Rightarrow> str list \<Rightarrow> str list" where
  "remove_stop_words stop_words words =
     foldl (\<lambda>filtered_words word.
              if word \<notin> set stop_words then filtered_words @ [word] else filtered_words)
       [] words"

definition remove_junk_from_articles :: "str list \<Rightarrow> str list list \<Rightarrow> str list list" where
  "remove_junk_from_articles stop_words articles =
     foldl (\<lambda>filtered_articles article.
              filtered_articles @
                [remove_non_alphabetical_words (remove_stop_words stop_words article)])
       [] articles"

section \<open>Lemmatizer adapter\<close>

text \<open>
  \<open>lemmatize_articles\<close> (lines 97 to 106). \<open>morph.parse(word)[0].normal_form\<close> is
  the morphological analyzer of pymorphy2; it is the parameter \<open>normal_form\<close>.
\<close>

definition lemmatize_articles :: "(str \<Rightarrow> str) \<Rightarrow> str list list \<Rightarrow> str list list" where
  "lemmatize_articles normal_form articles =
     foldl (\<lambda>lemmatized_articles article.
              lemmatized_articles @
                [foldl (\<lambda>article_words word. article_words @ [normal_form word]) [] article])
       [] articles"

section \<open>Notions of the specification\<close>

text \<open>
  The alphabetic characters of the two alphabets of the specification. The Latin alphabet
  has 26 letters, small and capital. The Russian alphabet has 33 letters, small and
  capital: the 32 of the block from U+0410 to U+044F, and the letter yo, which Unicode
  places outside of that block, at U+0451 and U+0401.
\<close>

definition latin_letter :: "nat \<Rightarrow> bool" where
  "latin_letter c = ((97 \<le> c \<and> c \<le> 122) \<or> (65 \<le> c \<and> c \<le> 90))"

definition russian_letter :: "nat \<Rightarrow> bool" where
  "russian_letter c = ((1040 \<le> c \<and> c \<le> 1103) \<or> c = 1105 \<or> c = 1025)"

text \<open>The number of articles that contain a lemma at least once.\<close>

definition containing :: "'k list list \<Rightarrow> 'k \<Rightarrow> nat" where
  "containing articles w = length (filter (\<lambda>a. w \<in> set a) articles)"

text \<open>
  The TF-IDF score of a lemma of an article, as the specification gives it: \<open>tf\<close> and
  \<open>idf\<close> are quotients, the score is their product, all three in floating-point
  arithmetic.
\<close>

definition tf_idf :: "'k list list \<Rightarrow> 'k list \<Rightarrow> 'k \<Rightarrow> rat" where
  "tf_idf articles article w =
     float_mul (float_div (int (count_list article w)) (int (length article)))
       (float_div (int (length articles)) (int (containing articles w)))"

text \<open>The position at which a lemma is first met in a list of lemmas.\<close>

definition first_seen_at :: "'k list \<Rightarrow> 'k \<Rightarrow> nat" where
  "first_seen_at xs w = length (takeWhile (\<lambda>y. y \<noteq> w) xs)"

text \<open>The example text of the specification for the segmenter.\<close>

definition example_text :: str where
  "example_text = ascii ''noise '' @ [1059, 1044, 1050] @ ascii '' 004.foo '' @
     [1057, 1055, 1048, 1057, 1054, 1050, 32, 1051, 1048, 1058, 1045, 1056, 1040, 1058, 1059, 1056, 1067] @
     ascii '' bar '' @ [1059, 1044, 1050] @ ascii '' 005.baz''"

text \<open>The number of positions of a text at which a pattern matches.\<close>

fun occurrences :: "pattern \<Rightarrow> str \<Rightarrow> nat" where
  "occurrences pat [] = (if match_here pat [] then 1 else 0)"
| "occurrences pat (c # cs) = (if match_here pat (c # cs) then 1 else 0) + occurrences pat cs"

section \<open>Rounding to a float\<close>

lemma round_half_even_of_int: "round_half_even (of_int m) = m"
  by (simp add: round_half_even_def)

lemma round_half_even_lower: "of_int a \<le> t \<Longrightarrow> a \<le> round_half_even t"
  unfolding round_half_even_def Let_def by (auto simp: le_floor_iff) (linarith+)?

lemma round_half_even_upper: "t \<le> of_int b \<Longrightarrow> round_half_even t \<le> b"
proof -
  assume t: "t \<le> of_int b"
  have fl: "\<lfloor>t\<rfloor> \<le> b" using t by (simp add: floor_le_iff) linarith?
  show ?thesis
  proof (cases "t = of_int \<lfloor>t\<rfloor>")
    case True
    then have "t - of_int \<lfloor>t\<rfloor> = 0" by simp
    then show ?thesis using fl by (simp add: round_half_even_def Let_def)
  next
    case False
    then have "of_int \<lfloor>t\<rfloor> < t" by (metis of_int_floor_le order_less_le)
    with t have "of_int \<lfloor>t\<rfloor> < (of_int b :: rat)" by linarith
    then have "\<lfloor>t\<rfloor> < b" by simp
    then show ?thesis by (auto simp: round_half_even_def Let_def)
  qed
qed

lemma power_int_unique:
  fixes y :: rat
  assumes "2 powi k \<le> y" "y < 2 powi (k + 1)" "2 powi e \<le> y" "y < 2 powi (e + 1)"
  shows "k = e"
proof -
  have "(2::rat) powi k < 2 powi (e + 1)" using assms by linarith
  then have "k < e + 1"
    by (metis not_less power_int_increasing one_le_numeral linorder_not_le)
  moreover have "(2::rat) powi e < 2 powi (k + 1)" using assms by linarith
  then have "e < k + 1"
    by (metis not_less power_int_increasing one_le_numeral linorder_not_le)
  ultimately show ?thesis by simp
qed

lemma float_exponent_bounds:
  assumes "x \<noteq> 0"
  shows "2 powi (float_exponent x) \<le> \<bar>x\<bar> \<and> \<bar>x\<bar> < 2 powi (float_exponent x + 1)"
proof -
  obtain p q where pq: "quotient_of \<bar>x\<bar> = (p, q)" by (cases "quotient_of \<bar>x\<bar>")
  have q: "0 < q" using quotient_of_denom_pos[OF pq] .
  have x: "\<bar>x\<bar> = of_int p / of_int q" using quotient_of_div[OF pq] .
  have "0 < \<bar>x\<bar>" using assms by simp
  then have p: "0 < p" using q unfolding x by (simp add: zero_less_divide_iff)
  let ?bp = "bitlen p" and ?bq = "bitlen q"
  have bp1: "1 \<le> ?bp" and bq1: "1 \<le> ?bq"
    using p q bitlen_eq_zero_iff[of p] bitlen_eq_zero_iff[of q] bitlen_nonneg[of p] bitlen_nonneg[of q]
    by linarith+
  have pw: "(2::rat) powi k = of_int (2 ^ nat k)" if "0 \<le> k" for k
    using that by (simp add: power_int_def)
  have bnd: "(2::rat) powi (bitlen a - 1) \<le> of_int a \<and> of_int a < (2::rat) powi bitlen a"
    if a: "0 < a" for a
  proof -
    have b1: "0 \<le> bitlen a - 1"
      using a bitlen_eq_zero_iff[of a] bitlen_nonneg[of a] by linarith
    have "(2::rat) powi (bitlen a - 1) = of_int (2 ^ nat (bitlen a - 1))"
      using b1 by (rule pw)
    also have "\<dots> \<le> of_int a"
      using bitlen_bounds[OF a] by (simp only: of_int_le_iff)
    finally have 1: "(2::rat) powi (bitlen a - 1) \<le> of_int a" .
    have "(of_int a :: rat) < of_int (2 ^ nat (bitlen a))"
      using bitlen_bounds[OF a] by (simp only: of_int_less_iff)
    also have "\<dots> = (2::rat) powi bitlen a"
      using bitlen_nonneg[of a] by (simp add: pw)
    finally show ?thesis using 1 by simp
  qed
  have pb: "(2::rat) powi (?bp - 1) \<le> of_int p" "of_int p < (2::rat) powi ?bp"
    using bnd[OF p] by simp_all
  have qb: "(2::rat) powi (?bq - 1) \<le> of_int q" "of_int q < (2::rat) powi ?bq"
    using bnd[OF q] by simp_all
  let ?d = "?bp - ?bq"
  have up: "\<bar>x\<bar> < 2 powi (?d + 1)"
  proof -
    have "of_int p / of_int q < (2::rat) powi ?bp / 2 powi (?bq - 1)"
      using pb qb p q by (intro frac_less) auto
    also have "\<dots> = 2 powi (?bp - (?bq - 1))" by (simp add: power_int_diff)
    also have "?bp - (?bq - 1) = ?d + 1" by simp
    finally show ?thesis by (simp add: x)
  qed
  have lo: "2 powi (?d - 1) < \<bar>x\<bar>"
  proof -
    have "(2::rat) powi (?bp - 1) / 2 powi ?bq < of_int p / of_int q"
      using pb qb p q by (intro frac_less2) auto
    moreover have "(2::rat) powi (?bp - 1) / 2 powi ?bq = 2 powi (?bp - 1 - ?bq)"
      by (simp add: power_int_diff)
    moreover have "?bp - 1 - ?bq = ?d - 1" by simp
    ultimately show ?thesis by (simp add: x)
  qed
  show ?thesis
  proof (cases "2 powi ?d \<le> \<bar>x\<bar>")
    case True
    then have "float_exponent x = ?d" by (simp add: float_exponent_def pq)
    with True up show ?thesis by simp
  next
    case False
    then have "float_exponent x = ?d - 1" by (simp add: float_exponent_def pq)
    with False lo show ?thesis by simp
  qed
qed

lemma float_round_fix:
  assumes "y = of_int m * 2 powi k" and "\<bar>m\<bar> < 2 ^ 53"
  shows "float_round y = y"
proof (cases "y = 0")
  case True
  then show ?thesis by (simp add: float_round_def)
next
  case False
  let ?e = "float_exponent y"
  have m0: "m \<noteq> 0" using False assms(1) by auto
  have ay: "\<bar>y\<bar> = of_int \<bar>m\<bar> * 2 powi k"
    unfolding assms(1) by (simp add: abs_mult)
  have "(of_int \<bar>m\<bar> :: rat) < of_int (2 ^ 53)"
    using assms(2) by (simp only: of_int_less_iff)
  then have "\<bar>y\<bar> < 2 ^ 53 * 2 powi k"
    unfolding ay by (simp add: mult_strict_right_mono)
  also have "(2::rat) ^ 53 * 2 powi k = 2 powi (53 + k)"
    by (simp add: power_int_add)
  finally have "\<bar>y\<bar> < 2 powi (53 + k)" .
  moreover have "2 powi ?e \<le> \<bar>y\<bar>" using float_exponent_bounds[OF False] by simp
  ultimately have "(2::rat) powi ?e < 2 powi (53 + k)" by linarith
  then have "?e < 53 + k"
    by (metis not_less power_int_increasing one_le_numeral linorder_not_le)
  then have d: "0 \<le> k - (?e - 52)" by simp
  let ?u = "(2::rat) powi (?e - 52)"
  have "y / ?u = of_int m * 2 powi (k - (?e - 52))"
    unfolding assms(1) by (simp add: power_int_diff)
  also have "\<dots> = of_int (m * 2 ^ nat (k - (?e - 52)))"
    using d by (simp add: power_int_def)
  finally have q: "y / ?u = of_int (m * 2 ^ nat (k - (?e - 52)))" .
  have "float_round y = of_int (round_half_even (y / ?u)) * ?u"
    using False by (simp add: float_round_def Let_def)
  also have "\<dots> = (y / ?u) * ?u"
    unfolding q round_half_even_of_int ..
  also have "\<dots> = y" by simp
  finally show ?thesis .
qed

lemma float_round_representable:
  "\<exists>m k. float_round x = of_int m * 2 powi k \<and> \<bar>m\<bar> < 2 ^ 53"
proof (cases "x = 0")
  case True
  then have "float_round x = of_int 0 * 2 powi 0 \<and> \<bar>0::int\<bar> < 2 ^ 53"
    by (simp add: float_round_def)
  then show ?thesis by blast
next
  case False
  let ?e = "float_exponent x"
  let ?u = "(2::rat) powi (?e - 52)"
  let ?t = "x / ?u"
  let ?m = "round_half_even ?t"
  have u: "0 < ?u" by simp
  have fr: "float_round x = of_int ?m * ?u"
    using False by (simp add: float_round_def Let_def)
  have b: "2 powi ?e \<le> \<bar>x\<bar>" "\<bar>x\<bar> < 2 powi (?e + 1)"
    using float_exponent_bounds[OF False] by simp_all
  have e1: "(2::rat) powi ?e = 2 ^ 52 * ?u" by (simp add: power_int_diff)
  have e2: "(2::rat) powi (?e + 1) = 2 ^ 53 * ?u"
    by (simp add: power_int_diff power_int_add)
  have t1: "2 ^ 52 \<le> \<bar>?t\<bar>"
    using b(1) u unfolding e1 by (simp add: abs_divide pos_le_divide_eq)
  have t2: "\<bar>?t\<bar> < 2 ^ 53"
    using b(2) u unfolding e2 by (simp add: abs_divide pos_divide_less_eq)
  have mb: "2 ^ 52 \<le> \<bar>?m\<bar> \<and> \<bar>?m\<bar> \<le> 2 ^ 53"
  proof (cases "0 \<le> ?t")
    case True
    with t1 t2 have lo: "of_int (2 ^ 52) \<le> ?t" and hi: "?t \<le> of_int (2 ^ 53)" by simp_all
    have "2 ^ 52 \<le> ?m" using lo by (rule round_half_even_lower)
    moreover have "?m \<le> 2 ^ 53" using hi by (rule round_half_even_upper)
    ultimately show ?thesis by simp
  next
    case False
    with t1 t2 have lo: "of_int (- (2 ^ 53)) \<le> ?t" and hi: "?t \<le> of_int (- (2 ^ 52))"
      by simp_all
    have "- (2 ^ 53) \<le> ?m" using lo by (rule round_half_even_lower)
    moreover have "?m \<le> - (2 ^ 52)" using hi by (rule round_half_even_upper)
    ultimately show ?thesis by simp
  qed
  show ?thesis
  proof (cases "\<bar>?m\<bar> < 2 ^ 53")
    case True
    with fr show ?thesis by blast
  next
    case False
    with mb have "\<bar>?m\<bar> = 2 ^ 53" by simp
    then have "?m = 2 ^ 53 \<or> ?m = - (2 ^ 53)" by linarith
    then have "float_round x = of_int 1 * 2 powi (?e + 1) \<or>
               float_round x = of_int (- 1) * 2 powi (?e + 1)"
      unfolding fr e2 by auto
    moreover have "\<bar>1::int\<bar> < 2 ^ 53" "\<bar>- 1::int\<bar> < 2 ^ 53" by simp_all
    ultimately show ?thesis by blast
  qed
qed

lemma float_round_idem: "float_round (float_round x) = float_round x"
  using float_round_representable[of x] float_round_fix by blast

lemma float_round_one: "float_round 1 = 1"
  using float_round_fix[of 1 1 0] by simp

lemma float_mul_one: "float_mul (float_round x) 1 = float_round x"
  by (simp add: float_mul_def float_round_idem)

lemma round_half_even_error: "\<bar>of_int (round_half_even t) - t\<bar> \<le> 1 / 2"
proof -
  define d where "d = t - of_int \<lfloor>t\<rfloor>"
  have d: "0 \<le> d" "d < 1" unfolding d_def by linarith+
  have t: "t = of_int \<lfloor>t\<rfloor> + d" by (simp add: d_def)
  consider "d < 1 / 2" | "1 / 2 < d" | "d = 1 / 2" by linarith
  then show ?thesis
  proof cases
    case 1
    then have "round_half_even t = \<lfloor>t\<rfloor>"
      by (simp add: round_half_even_def Let_def d_def)
    then have "of_int (round_half_even t) - t = - d" by (simp add: d_def)
    then show ?thesis using 1 d by simp
  next
    case 2
    then have "round_half_even t = \<lfloor>t\<rfloor> + 1"
      by (simp add: round_half_even_def Let_def d_def)
    then have "of_int (round_half_even t) - t = 1 - d" by (simp add: d_def)
    then show ?thesis using 2 d by simp
  next
    case 3
    then have "round_half_even t = \<lfloor>t\<rfloor> \<or> round_half_even t = \<lfloor>t\<rfloor> + 1"
      by (simp add: round_half_even_def Let_def d_def)
    then have "of_int (round_half_even t) - t = - d \<or> of_int (round_half_even t) - t = 1 - d"
      by (auto simp: d_def)
    then show ?thesis using 3 by auto
  qed
qed

lemma float_round_error: "\<bar>float_round x - x\<bar> \<le> \<bar>x\<bar> / 2 ^ 53"
proof (cases "x = 0")
  case True
  then show ?thesis by (simp add: float_round_def)
next
  case False
  let ?e = "float_exponent x"
  let ?u = "(2::rat) powi (?e - 52)"
  have u: "0 < ?u" by simp
  have "float_round x - x = (of_int (round_half_even (x / ?u)) - x / ?u) * ?u"
    using False by (simp add: float_round_def Let_def algebra_simps)
  then have "\<bar>float_round x - x\<bar> = \<bar>of_int (round_half_even (x / ?u)) - x / ?u\<bar> * ?u"
    using u by (simp add: abs_mult)
  also have "\<dots> \<le> 1 / 2 * ?u"
    using round_half_even_error[of "x / ?u"] u by (intro mult_right_mono) simp_all
  also have "1 / 2 * ?u = 2 powi ?e / 2 ^ 53"
    by (simp add: power_int_diff)
  also have "\<dots> \<le> \<bar>x\<bar> / 2 ^ 53"
    using float_exponent_bounds[OF False] by (simp add: divide_right_mono)
  finally show ?thesis .
qed

lemma float_product_error:
  fixes a b :: rat
  assumes "0 \<le> a" "0 \<le> b"
  shows "\<bar>float_mul (float_round a) (float_round b) - a * b\<bar> \<le> a * b / 2 ^ 51"
proof -
  define eps :: rat where "eps = 1 / 2 ^ 53"
  define x where "x = float_round a"
  define y where "y = float_round b"
  have eps: "0 \<le> eps" "eps \<le> 1" by (simp_all add: eps_def)
  have xa: "\<bar>x - a\<bar> \<le> a * eps"
    using float_round_error[of a] assms(1) by (simp add: x_def eps_def)
  have yb: "\<bar>y - b\<bar> \<le> b * eps"
    using float_round_error[of b] assms(2) by (simp add: y_def eps_def)
  have "0 \<le> a * eps" using assms(1) eps by simp
  then have ax: "\<bar>x\<bar> \<le> a * (1 + eps)"
    using xa assms(1) by (simp add: algebra_simps abs_le_iff)
  have "x * y - a * b = x * (y - b) + (x - a) * b" by (simp add: algebra_simps)
  then have "\<bar>x * y - a * b\<bar> \<le> \<bar>x\<bar> * \<bar>y - b\<bar> + \<bar>x - a\<bar> * \<bar>b\<bar>"
    by (metis abs_mult abs_triangle_ineq)
  also have "\<dots> \<le> a * (1 + eps) * (b * eps) + a * eps * b"
    using ax yb xa assms eps
    by (intro add_mono mult_mono) (simp_all add: mult_nonneg_nonneg)
  finally have p: "\<bar>x * y - a * b\<bar> \<le> a * b * (2 * eps + eps * eps)"
    by (simp add: algebra_simps)
  have "\<bar>x * y\<bar> \<le> \<bar>a * b\<bar> + \<bar>x * y - a * b\<bar>" by simp
  with p assms have xy: "\<bar>x * y\<bar> \<le> a * b * (1 + 2 * eps + eps * eps)"
    by (simp add: algebra_simps)
  have "\<bar>float_round (x * y) - a * b\<bar> \<le> \<bar>float_round (x * y) - x * y\<bar> + \<bar>x * y - a * b\<bar>"
    by simp
  also have "\<dots> \<le> \<bar>x * y\<bar> * eps + a * b * (2 * eps + eps * eps)"
    using float_round_error[of "x * y"] p by (simp add: eps_def)
  also have "\<dots> \<le> a * b * (1 + 2 * eps + eps * eps) * eps + a * b * (2 * eps + eps * eps)"
    using xy eps by (simp add: mult_right_mono)
  also have "\<dots> = a * b * (3 * eps + 3 * eps * eps + eps * eps * eps)"
    by (simp add: algebra_simps)
  also have "\<dots> \<le> a * b * (4 * eps)"
  proof -
    have "eps * eps \<le> eps / 4" "eps * eps * eps \<le> eps / 4"
      by (simp_all add: eps_def)
    then have "3 * eps + 3 * eps * eps + eps * eps * eps \<le> 4 * eps" using eps by simp
    then show ?thesis using assms by (intro mult_left_mono) simp_all
  qed
  also have "a * b * (4 * eps) = a * b / 2 ^ 51" by (simp add: eps_def)
  finally show ?thesis by (simp add: float_mul_def x_def y_def)
qed

section \<open>Dictionaries and counting\<close>

lemma dict_get_dict_set:
  "dict_get (dict_set d k v) k' = (if k' = k then Some v else dict_get d k')"
  by (induction d) auto

lemma dict_get_None_iff: "dict_get d k = None \<longleftrightarrow> k \<notin> set (keys d)"
  by (induction d k rule: dict_get.induct) (auto simp: keys_def)

lemma keys_dict_set:
  "keys (dict_set d k v) = (if k \<in> set (keys d) then keys d else keys d @ [k])"
  by (induction d k v rule: dict_set.induct) (auto simp: keys_def)

lemma dict_set_new: "k \<notin> set (keys d) \<Longrightarrow> dict_set d k v = d @ [(k, v)]"
  by (induction d) (auto simp: keys_def)

lemma dict_of_items_distinct:
  "distinct (map fst items) \<Longrightarrow> dict_of_items items = items"
proof -
  have "distinct (map fst items) \<Longrightarrow> set (map fst items) \<inter> set (keys d) = {} \<Longrightarrow>
        foldl (\<lambda>d (k, v). dict_set d k v) d items = d @ items" for d
  proof (induction items arbitrary: d)
    case Nil
    then show ?case by simp
  next
    case (Cons p items)
    obtain k v where p: "p = (k, v)" by (cases p)
    from Cons.prems have new: "k \<notin> set (keys d)" by (auto simp: p)
    have "set (map fst items) \<inter> set (keys (d @ [(k, v)])) = {}"
      using Cons.prems by (auto simp: p keys_def)
    with Cons.IH[of "d @ [(k, v)]"] Cons.prems show ?case
      by (simp add: p dict_set_new[OF new])
  qed
  from this[of "[]"] show "distinct (map fst items) \<Longrightarrow> dict_of_items items = items"
    by (simp add: dict_of_items_def keys_def)
qed

lemma Counter_snoc:
  "Counter (xs @ [x]) = dict_set (Counter xs) x (counter_get (Counter xs) x + 1)"
  by (simp add: Counter_def)

lemma set_keys_Counter: "set (keys (Counter xs)) = set xs"
  by (induction xs rule: rev_induct) (auto simp: Counter_snoc keys_dict_set, simp_all add: Counter_def keys_def)

lemma distinct_keys_Counter: "distinct (keys (Counter xs))"
  by (induction xs rule: rev_induct) (auto simp: Counter_snoc keys_dict_set set_keys_Counter, simp add: Counter_def keys_def)

lemma counter_get_Counter: "counter_get (Counter xs) w = int (count_list xs w)"
proof (induction xs rule: rev_induct)
  case Nil
  show ?case by (simp add: Counter_def counter_get_def)
next
  case (snoc x xs)
  have "counter_get (Counter (xs @ [x])) w =
        (if w = x then counter_get (Counter xs) x + 1 else counter_get (Counter xs) w)"
    by (simp add: Counter_snoc counter_get_def dict_get_dict_set)
  with snoc show ?case by auto
qed

section \<open>Document frequency\<close>

lemma containing_Nil: "containing [] w = 0"
  by (simp add: containing_def)

lemma containing_Cons:
  "containing (a # articles) w = (if w \<in> set a then 1 else 0) + containing articles w"
  by (simp add: containing_def)

lemma containing_pos: "0 < containing articles w \<longleftrightarrow> w \<in> set (concat articles)"
  by (auto simp: containing_def filter_empty_conv)

lemma reduce_concat_Cons: "reduce_concat (x # xs) = Inr (concat (x # xs))"
proof -
  have "foldl (\<lambda>x y. x @ y) x xs = x @ concat xs" for x :: "'a list"
    by (induction xs arbitrary: x) auto
  then show ?thesis by simp
qed

lemma count_word_in_article_get:
  "dict_get (count_word_in_article w d a) k =
     (if k = w \<and> w \<in> set a then Some (counter_get d w + 1) else dict_get d k)"
  by (auto simp: count_word_in_article_def dict_get_dict_set counter_get_def split: option.splits)

lemma count_word_fold_get:
  "dict_get (foldl (count_word_in_article w) d articles) k =
     (if k = w \<and> 0 < containing articles w
      then Some (counter_get d w + int (containing articles w))
      else dict_get d k)"
proof (induction articles arbitrary: d)
  case Nil
  show ?case by (simp add: containing_Nil)
next
  case (Cons a articles)
  show ?case
    by (auto simp: Cons.IH count_word_in_article_get counter_get_def containing_Cons)
qed

lemma count_words_fold_get:
  "distinct ws \<Longrightarrow>
   dict_get (foldl (\<lambda>d word. foldl (count_word_in_article word) d articles) d ws) k =
     (if k \<in> set ws \<and> 0 < containing articles k
      then Some (counter_get d k + int (containing articles k))
      else dict_get d k)"
proof (induction ws arbitrary: d)
  case Nil
  show ?case by simp
next
  case (Cons w ws)
  then show ?case
    by (auto simp: count_word_fold_get counter_get_def)
qed

lemma document_frequency_get:
  assumes "articles \<noteq> []"
  shows "\<exists>df. count_number_of_articles_with_all_words articles = Inr df \<and>
           (\<forall>w. dict_get df w =
              (if w \<in> set (concat articles)
               then Some (int (containing articles w)) else None))"
proof -
  obtain x xs where a: "articles = x # xs" using assms by (cases articles) auto
  have r: "reduce_concat articles = Inr (concat articles)"
    unfolding a by (rule reduce_concat_Cons)
  show ?thesis
    unfolding count_number_of_articles_with_all_words_def r
    by (simp add: count_words_fold_get distinct_keys_Counter set_keys_Counter counter_get_def
          containing_pos del: set_concat)
qed

section \<open>Scoring\<close>

lemma score_words_eq:
  assumes "distinct ws" "set ws \<inter> set (keys acc) = {}"
    and "ws \<noteq> [] \<Longrightarrow> n \<noteq> 0"
    and "\<forall>w\<in>set ws. \<exists>m. dict_get df w = Some m \<and> m \<noteq> 0"
  shows "score_words freq n N df ws acc =
           Inr (acc @ map (\<lambda>w. (w, float_mul (float_div (counter_get freq w) n)
                                   (float_div N (the (dict_get df w))))) ws)"
  using assms
proof (induction ws arbitrary: acc)
  case Nil
  show ?case by simp
next
  case (Cons w ws)
  from Cons.prems obtain m where m: "dict_get df w = Some m" "m \<noteq> 0" by auto
  from Cons.prems have n: "n \<noteq> 0" by simp
  from Cons.prems have new: "w \<notin> set (keys acc)" by auto
  let ?acc = "acc @ [(w, float_mul (float_div (counter_get freq w) n) (float_div N m))]"
  have "score_words freq n N df (w # ws) acc = score_words freq n N df ws ?acc"
    by (simp add: true_div_def dict_index_def m n dict_set_new[OF new])
  also have "\<dots> = Inr (?acc @ map (\<lambda>w. (w, float_mul (float_div (counter_get freq w) n)
                                   (float_div N (the (dict_get df w))))) ws)"
    using Cons.prems by (intro Cons.IH) (auto simp: keys_def)
  finally show ?case by (simp add: m)
qed

lemma score_article_eq:
  assumes "set article \<subseteq> set (concat articles)"
    and "\<forall>w. dict_get df w =
              (if w \<in> set (concat articles) then Some (int (containing articles w)) else None)"
  shows "score_article (int (length articles)) df article =
           Inr (map (\<lambda>w. (w, tf_idf articles article w)) (keys (Counter article)))"
proof -
  have 1: "distinct (keys (Counter article))" by (rule distinct_keys_Counter)
  have 2: "set (keys (Counter article)) \<inter> set (keys []) = {}" by (simp add: keys_def)
  have 3: "keys (Counter article) \<noteq> [] \<Longrightarrow> int (length article) \<noteq> 0"
    using set_keys_Counter[of article] by auto
  have 4: "\<forall>w\<in>set (keys (Counter article)). \<exists>m. dict_get df w = Some m \<and> m \<noteq> 0"
    using assms containing_pos[of articles] by (auto simp: set_keys_Counter simp del: set_concat)
  have 5: "the (dict_get df w) = int (containing articles w)" if "w \<in> set (keys (Counter article))" for w
    using that assms by (auto simp: set_keys_Counter simp del: set_concat)
  have "score_article (int (length articles)) df article =
          Inr (map (\<lambda>w. (w, float_mul (float_div (counter_get (Counter article) w) (int (length article)))
              (float_div (int (length articles)) (the (dict_get df w))))) (keys (Counter article)))"
    using score_words_eq[OF 1 2 3 4] by (simp add: score_article_def Let_def)
  also have "map (\<lambda>w. (w, float_mul (float_div (counter_get (Counter article) w) (int (length article)))
              (float_div (int (length articles)) (the (dict_get df w))))) (keys (Counter article))
           = map (\<lambda>w. (w, tf_idf articles article w)) (keys (Counter article))"
    by (rule map_cong[OF refl]) (simp add: 5 tf_idf_def counter_get_Counter)
  finally show ?thesis .
qed

lemma score_articles_eq:
  assumes "set (concat rest) \<subseteq> set (concat articles)"
    and "\<forall>w. dict_get df w =
              (if w \<in> set (concat articles) then Some (int (containing articles w)) else None)"
  shows "score_articles (int (length articles)) df rest acc =
           Inr (acc @ map (\<lambda>a. map (\<lambda>w. (w, tf_idf articles a w)) (keys (Counter a))) rest)"
  using assms(1)
proof (induction rest arbitrary: acc)
  case Nil
  show ?case by simp
next
  case (Cons a rest)
  have "set a \<subseteq> set (concat articles)" using Cons.prems by auto
  note sa = score_article_eq[OF this assms(2)]
  have "set (concat rest) \<subseteq> set (concat articles)" using Cons.prems by auto
  from Cons.IH[OF this] show ?case by (simp add: sa)
qed

lemma sort_tf_idfs_eq:
  assumes "\<forall>d\<in>set tf_idfs. distinct (keys d)"
  shows "sort_tf_idfs tf_idfs = map (sort_key (\<lambda>x. - snd x)) tf_idfs"
proof -
  have "dict_of_items (sort_key (\<lambda>x. - snd x) d) = sort_key (\<lambda>x. - snd x) d"
    if "d \<in> set tf_idfs" for d
  proof (rule dict_of_items_distinct)
    from assms that have "distinct (map fst d)" by (simp add: keys_def)
    then have "distinct (map fst (sort_key (\<lambda>x. - snd x) d))"
      by (simp add: distinct_map)
    then show "distinct (map fst (sort_key (\<lambda>x. - snd x) d))" .
  qed
  then show ?thesis by (simp add: sort_tf_idfs_def)
qed

lemma calculate_tf_idf_eq:
  assumes "articles \<noteq> []"
  shows "calculate_tf_idf articles =
           Inr (map (\<lambda>a. sort_key (\<lambda>x. - snd x)
                           (map (\<lambda>w. (w, tf_idf articles a w)) (keys (Counter a)))) articles)"
proof -
  from document_frequency_get[OF assms] obtain df where
    df: "count_number_of_articles_with_all_words articles = Inr df"
    and get: "\<forall>w. dict_get df w =
              (if w \<in> set (concat articles) then Some (int (containing articles w)) else None)"
    by blast
  have sc: "score_articles (int (length articles)) df articles [] =
         Inr (map (\<lambda>a. map (\<lambda>w. (w, tf_idf articles a w)) (keys (Counter a))) articles)"
    using score_articles_eq[OF subset_refl get, of "[]"] by simp
  have "\<forall>d\<in>set (map (\<lambda>a. map (\<lambda>w. (w, tf_idf articles a w)) (keys (Counter a))) articles).
          distinct (keys d)"
    by (auto simp: keys_def comp_def distinct_keys_Counter[unfolded keys_def])
  from sort_tf_idfs_eq[OF this] show ?thesis
    by (simp add: calculate_tf_idf_def df sc comp_def)
qed

section \<open>Ranking\<close>

lemma insort_key_tie_order:
  assumes "\<forall>y\<in>set ys. Q x y"
    and "sorted_wrt (\<lambda>a b. f a < f b \<or> (f a = f b \<and> Q a b)) ys"
  shows "sorted_wrt (\<lambda>a b. f a < f b \<or> (f a = f b \<and> Q a b)) (insort_key f x ys)"
  using assms
proof (induction ys)
  case Nil
  show ?case by simp
next
  case (Cons y ys)
  show ?case
  proof (cases "f x \<le> f y")
    case True
    have "f x < f z \<or> (f x = f z \<and> Q x z)" if "z \<in> set (y # ys)" for z
    proof -
      have "f y \<le> f z" using that Cons.prems(2) by auto
      with True have "f x \<le> f z" by simp
      moreover have "Q x z" using that Cons.prems(1) by auto
      ultimately show ?thesis by auto
    qed
    with True Cons.prems(2) show ?thesis by simp
  next
    case False
    then have "f y < f x" by simp
    moreover have "sorted_wrt (\<lambda>a b. f a < f b \<or> (f a = f b \<and> Q a b)) (insort_key f x ys)"
      using Cons by simp
    ultimately show ?thesis using False Cons.prems(2) by (auto simp: set_insort_key)
  qed
qed

lemma sort_key_tie_order:
  assumes "sorted_wrt Q xs"
  shows "sorted_wrt (\<lambda>a b. f a < f b \<or> (f a = f b \<and> Q a b)) (sort_key f xs)"
  using assms
proof (induction xs)
  case Nil
  show ?case by simp
next
  case (Cons x xs)
  then have "\<forall>y\<in>set (sort_key f xs). Q x y" by simp
  from insort_key_tie_order[where Q = Q, OF this] Cons show ?case by simp
qed

lemma first_seen_at_snoc:
  "w \<in> set xs \<Longrightarrow> first_seen_at (xs @ [x]) w = first_seen_at xs w"
  by (simp add: first_seen_at_def takeWhile_append1)

lemma first_seen_at_less: "w \<in> set xs \<Longrightarrow> first_seen_at xs w < length xs"
  unfolding first_seen_at_def by (induction xs) auto

lemma first_seen_at_new: "x \<notin> set xs \<Longrightarrow> first_seen_at (xs @ [x]) x = length xs"
  unfolding first_seen_at_def by (induction xs) auto

lemma keys_Counter_first_seen:
  "sorted_wrt (\<lambda>a b. first_seen_at xs a < first_seen_at xs b) (keys (Counter xs))"
proof (induction xs rule: rev_induct)
  case Nil
  show ?case by (simp add: Counter_def keys_def)
next
  case (snoc x xs)
  have old: "sorted_wrt (\<lambda>a b. first_seen_at (xs @ [x]) a < first_seen_at (xs @ [x]) b)
               (keys (Counter xs))"
    using snoc
    by (rule sorted_wrt_mono_rel[rotated]) (simp add: set_keys_Counter first_seen_at_snoc)
  show ?case
  proof (cases "x \<in> set xs")
    case True
    with old show ?thesis by (simp add: Counter_snoc keys_dict_set set_keys_Counter)
  next
    case False
    have "first_seen_at (xs @ [x]) a < first_seen_at (xs @ [x]) x" if "a \<in> set xs" for a
      using that False by (simp add: first_seen_at_snoc first_seen_at_new first_seen_at_less)
    with old False show ?thesis
      by (simp add: Counter_snoc keys_dict_set set_keys_Counter sorted_wrt_append)
  qed
qed

lemma dict_get_distinct:
  "distinct (map fst d) \<Longrightarrow> (k, v) \<in> set d \<Longrightarrow> dict_get d k = Some v"
  by (induction d k rule: dict_get.induct) (auto simp: rev_image_eqI)

lemma count_list_distinct: "distinct xs \<Longrightarrow> x \<in> set xs \<Longrightarrow> count_list xs x = 1"
  by (induction xs) (auto simp: count_list_0_iff)

section \<open>Claims about the engine\<close>

text \<open>
  Claim C1. For the empty corpus the specification asks for an empty report and no error.
  The formatter alone returns the empty report for no articles, but \<open>calculate_tf_idf\<close>
  raises \<open>TypeError\<close> before it: \<open>reduce\<close> is called on the empty list without
  an initial value.
\<close>

theorem empty_corpus_raises:
  "calculate_tf_idf ([] :: 'k list list) = Inl TypeError \<and> format_tf_idf float_str [] limit = []"
  by (simp add: calculate_tf_idf_def count_number_of_articles_with_all_words_def
        format_tf_idf_def)

text \<open>A text without a start marker is segmented into no article at all.\<close>

lemma no_marker_no_articles:
  "split_text_into_articles ascii_decimal (ascii ''noise'') = Inr []"
  by (simp add: split_text_into_articles_def re_split_def ascii_def start_marker_def lit_def)

lemma calculate_tf_idf_nth:
  assumes "i < length articles"
  shows "\<exists>r. calculate_tf_idf articles = Inr r \<and> length r = length articles \<and>
           r ! i = sort_key (\<lambda>x. - snd x)
                     (map (\<lambda>w. (w, tf_idf articles (articles ! i) w)) (keys (Counter (articles ! i))))"
proof -
  from assms have "articles \<noteq> []" by auto
  from calculate_tf_idf_eq[OF this] assms show ?thesis by simp
qed

text \<open>
  Claim C3. The document-frequency table maps every lemma that occurs somewhere in the
  corpus to the number of articles that contain it at least once; how often the lemma
  repeats inside an article does not enter the value.
\<close>

theorem document_frequency_is_article_count:
  assumes "w \<in> set (concat articles)"
  shows "\<exists>df. count_number_of_articles_with_all_words articles = Inr df \<and>
           dict_get df w = Some (int (length (filter (\<lambda>a. w \<in> set a) articles)))"
proof -
  from assms have "articles \<noteq> []" by auto
  from document_frequency_get[OF this] assms show ?thesis
    by (auto simp: containing_def)
qed

theorem document_frequency_is_article_count_witness:
  "''b'' \<in> set (concat [[''a''], [''b'', ''b'', ''b''], [''c''], [''b'', ''a''], [''c''], [''a''],
                       [''d'', ''b'', ''d'', ''b''], [''e''], [''a'', ''a''], [''f'']]) \<and>
   (\<exists>df. count_number_of_articles_with_all_words
           [[''a''], [''b'', ''b'', ''b''], [''c''], [''b'', ''a''], [''c''], [''a''],
            [''d'', ''b'', ''d'', ''b''], [''e''], [''a'', ''a''], [''f'']] = Inr df \<and>
         dict_get df ''b'' = Some 3)"
  using document_frequency_is_article_count
    [of "''b''" "[[''a''], [''b'', ''b'', ''b''], [''c''], [''b'', ''a''], [''c''], [''a''],
            [''d'', ''b'', ''d'', ''b''], [''e''], [''a'', ''a''], [''f'']]"]
  by simp

text \<open>The float scores of two small corpora, as Python prints them: 1.3333333333333333 and 0.25.\<close>

lemma float_score_examples:
  "float_mul (float_div 2 3) (float_div 2 1) = 6004799503160661 / 4503599627370496"
  "float_div 1 4 = 1 / 4"
  by code_simp+

text \<open>
  Claim C2. In the result of \<open>calculate_tf_idf\<close>, the score of a lemma \<open>w\<close> of article
  \<open>i\<close> is (count of \<open>w\<close> in the article / number of lemmas of the article) *
  (number of articles / number of articles containing \<open>w\<close>), the two quotients and the
  product computed in floating-point arithmetic; it differs from the exact value of that
  expression by at most the fraction \<open>2 ^ -51\<close> of it. In a corpus of one article whose
  lemmas are all distinct every score is the float 1 / number of lemmas, the exact
  quotient rounded once.
\<close>

theorem tf_idf_score:
  "(i < length (articles :: 'k list list) \<and> w \<in> set (articles ! i) \<longrightarrow>
      (\<exists>r. calculate_tf_idf articles = Inr r \<and>
           dict_get (r ! i) w =
             Some (float_mul
                     (float_div (int (count_list (articles ! i) w)) (int (length (articles ! i))))
                     (float_div (int (length articles))
                        (int (length (filter (\<lambda>a. w \<in> set a) articles))))) \<and>
           \<bar>float_mul
              (float_div (int (count_list (articles ! i) w)) (int (length (articles ! i))))
              (float_div (int (length articles))
                 (int (length (filter (\<lambda>a. w \<in> set a) articles))))
            - (of_int (int (count_list (articles ! i) w)) / of_int (int (length (articles ! i)))) *
              (of_int (int (length articles)) /
               of_int (int (length (filter (\<lambda>a. w \<in> set a) articles))))\<bar>
           \<le> (of_int (int (count_list (articles ! i) w)) / of_int (int (length (articles ! i)))) *
              (of_int (int (length articles)) /
               of_int (int (length (filter (\<lambda>a. w \<in> set a) articles)))) / 2 ^ 51)) \<and>
   (distinct (article :: 'k list) \<and> v \<in> set article \<longrightarrow>
      (\<exists>r. calculate_tf_idf [article] = Inr r \<and>
           dict_get (r ! 0) v = Some (float_div 1 (int (length article))) \<and>
           \<bar>float_div 1 (int (length article)) - 1 / of_int (int (length article))\<bar>
           \<le> 1 / of_int (int (length article)) / 2 ^ 53))"
proof -
  have general: "\<exists>r. calculate_tf_idf as = Inr r \<and>
           dict_get (r ! j) u = Some (tf_idf as (as ! j) u)"
    if "j < length as" "u \<in> set (as ! j)" for as :: "'k list list" and j u
  proof -
    from calculate_tf_idf_nth[OF that(1)] obtain r where
      r: "calculate_tf_idf as = Inr r"
      and ri: "r ! j = sort_key (\<lambda>x. - snd x)
                     (map (\<lambda>w. (w, tf_idf as (as ! j) w)) (keys (Counter (as ! j))))"
      by blast
    have "distinct (map fst (r ! j))"
      unfolding ri by (simp add: distinct_map comp_def distinct_keys_Counter inj_on_def)
    moreover have "(u, tf_idf as (as ! j) u) \<in> set (r ! j)"
      unfolding ri using that(2) by (simp add: set_keys_Counter)
    ultimately have "dict_get (r ! j) u = Some (tf_idf as (as ! j) u)"
      by (rule dict_get_distinct)
    with r show ?thesis by blast
  qed
  have one: "tf_idf [article] article v = float_div 1 (int (length article))"
    if "distinct article" "v \<in> set article"
  proof -
    have "float_div 1 1 = 1" by (simp add: float_div_def float_round_one)
    then show ?thesis
      using that float_mul_one[of "1 / of_int (int (length article))"]
      by (simp add: tf_idf_def containing_def count_list_distinct float_div_def)
  qed
  show ?thesis
  proof (intro conjI impI)
    assume "i < length articles \<and> w \<in> set (articles ! i)"
    then show "\<exists>r. calculate_tf_idf articles = Inr r \<and>
           dict_get (r ! i) w =
             Some (float_mul
                     (float_div (int (count_list (articles ! i) w)) (int (length (articles ! i))))
                     (float_div (int (length articles))
                        (int (length (filter (\<lambda>a. w \<in> set a) articles))))) \<and>
           \<bar>float_mul
              (float_div (int (count_list (articles ! i) w)) (int (length (articles ! i))))
              (float_div (int (length articles))
                 (int (length (filter (\<lambda>a. w \<in> set a) articles))))
            - (of_int (int (count_list (articles ! i) w)) / of_int (int (length (articles ! i)))) *
              (of_int (int (length articles)) /
               of_int (int (length (filter (\<lambda>a. w \<in> set a) articles))))\<bar>
           \<le> (of_int (int (count_list (articles ! i) w)) / of_int (int (length (articles ! i)))) *
              (of_int (int (length articles)) /
               of_int (int (length (filter (\<lambda>a. w \<in> set a) articles)))) / 2 ^ 51"
      using general[of i articles w]
        float_product_error
          [of "of_int (int (count_list (articles ! i) w)) / of_int (int (length (articles ! i)))"
              "of_int (int (length articles)) /
               of_int (int (length (filter (\<lambda>a. w \<in> set a) articles)))"]
      by (simp add: tf_idf_def containing_def float_div_def)
  next
    assume "distinct article \<and> v \<in> set article"
    then show "\<exists>r. calculate_tf_idf [article] = Inr r \<and>
           dict_get (r ! 0) v = Some (float_div 1 (int (length article))) \<and>
           \<bar>float_div 1 (int (length article)) - 1 / of_int (int (length article))\<bar>
           \<le> 1 / of_int (int (length article)) / 2 ^ 53"
      using general[of 0 "[article]" v] one
        float_round_error[of "1 / of_int (int (length article))"]
      by (simp add: float_div_def)
  qed
qed

theorem tf_idf_score_witness:
  "(0::nat) < length [[''a'', ''b'', ''a''], [''b'', ''c'']] \<and>
   ''a'' \<in> set ([[''a'', ''b'', ''a''], [''b'', ''c'']] ! 0) \<and>
   (\<exists>r. calculate_tf_idf [[''a'', ''b'', ''a''], [''b'', ''c'']] = Inr r \<and>
        dict_get (r ! 0) ''a'' = Some (6004799503160661 / 4503599627370496)) \<and>
   distinct [''x'', ''y'', ''z'', ''u''] \<and> ''y'' \<in> set [''x'', ''y'', ''z'', ''u''] \<and>
   (\<exists>r. calculate_tf_idf [[''x'', ''y'', ''z'', ''u'']] = Inr r \<and>
        dict_get (r ! 0) ''y'' = Some (1 / 4))"
  using tf_idf_score [of 0 "[[''a'', ''b'', ''a''], [''b'', ''c'']]" "''a''"
                         "[''x'', ''y'', ''z'', ''u'']" "''y''"]
  by (simp add: float_score_examples)

lemma set_keys_sort_key: "set (keys (sort_key f d)) = set (keys d)"
  by (simp add: keys_def)

lemma distinct_keys_sort_key: "distinct (keys (sort_key f d)) = distinct (keys d)"
  by (simp add: keys_def distinct_map)

lemma keys_map_pair: "keys (map (\<lambda>w. (w, g w)) ks) = ks"
  by (simp add: keys_def comp_def)

lemma first_seen_at_Cons:
  "first_seen_at (x # xs) w = (if w = x then 0 else Suc (first_seen_at xs w))"
  by (auto simp: first_seen_at_def)

lemma distinct_first_seen_order:
  "distinct ks \<Longrightarrow> sorted_wrt (\<lambda>a b. first_seen_at ks a < first_seen_at ks b) ks"
proof (induction ks)
  case Nil
  show ?case by simp
next
  case (Cons k ks)
  then have "sorted_wrt (\<lambda>a b. first_seen_at ks a < first_seen_at ks b) ks" by simp
  then have "sorted_wrt (\<lambda>a b. first_seen_at (k # ks) a < first_seen_at (k # ks) b) ks"
    by (rule sorted_wrt_mono_rel[rotated]) (use Cons.prems in \<open>auto simp: first_seen_at_Cons\<close>)
  moreover have "\<forall>y\<in>set ks. first_seen_at (k # ks) k < first_seen_at (k # ks) y"
    using Cons.prems by (auto simp: first_seen_at_Cons)
  ultimately show ?case by simp
qed

lemma ranked_by_score_then_position:
  assumes "sorted_wrt (\<lambda>e1 e2. pos (fst e1) < pos (fst e2)) d"
  shows "sorted_wrt (\<lambda>e1 e2. snd e2 \<le> (snd e1 :: rat)) (sort_key (\<lambda>x. - snd x) d) \<and>
         sorted_wrt (\<lambda>e1 e2. snd e1 = snd e2 \<longrightarrow> pos (fst e1) < (pos (fst e2) :: nat))
           (sort_key (\<lambda>x. - snd x) d)"
proof -
  have lex: "sorted_wrt (\<lambda>e1 e2. - snd e1 < - snd e2 \<or>
                (- snd e1 = - snd e2 \<and> pos (fst e1) < pos (fst e2)))
               (sort_key (\<lambda>x. - snd x) d)"
    using assms by (rule sort_key_tie_order)
  have "sorted_wrt (\<lambda>e1 e2. snd e2 \<le> snd e1) (sort_key (\<lambda>x. - snd x) d)"
    using lex by (rule sorted_wrt_mono_rel[rotated]) auto
  moreover have "sorted_wrt (\<lambda>e1 e2. snd e1 = snd e2 \<longrightarrow> pos (fst e1) < pos (fst e2))
                   (sort_key (\<lambda>x. - snd x) d)"
    using lex by (rule sorted_wrt_mono_rel[rotated]) auto
  ultimately show ?thesis by simp
qed

text \<open>
  Claim C5. The ranked mapping of an article holds exactly the entries of the article's
  mapping, each lemma with its score, and lists them by non-increasing score; entries with
  equal scores stand in the order in which their lemmas were first met in the article's
  lemma list, the order in which \<open>Counter\<close> counted them. For every list of mappings
  \<open>sort_tf_idfs\<close> keeps the entries of each mapping, lists them by non-increasing score
  and leaves entries with equal scores in the order of the mapping.
\<close>

theorem ranking_order:
  "(i < length (articles :: 'k list list) \<longrightarrow>
      (\<exists>r. calculate_tf_idf articles = Inr r \<and> length r = length articles \<and>
           distinct (keys (r ! i)) \<and>
           set (r ! i) =
             (\<lambda>w. (w, float_mul
                         (float_div (int (count_list (articles ! i) w)) (int (length (articles ! i))))
                         (float_div (int (length articles))
                            (int (length (filter (\<lambda>a. w \<in> set a) articles))))))
               ` set (articles ! i) \<and>
           sorted_wrt (\<lambda>e1 e2. snd e2 \<le> snd e1) (r ! i) \<and>
           sorted_wrt (\<lambda>e1 e2. snd e1 = snd e2 \<longrightarrow>
                         first_seen_at (articles ! i) (fst e1) < first_seen_at (articles ! i) (fst e2))
             (r ! i))) \<and>
   ((\<forall>d\<in>set (tf_idfs :: ('k, rat) dict list). distinct (keys d)) \<and> j < length tf_idfs \<longrightarrow>
      length (sort_tf_idfs tf_idfs) = length tf_idfs \<and>
      distinct (keys (sort_tf_idfs tf_idfs ! j)) \<and>
      set (sort_tf_idfs tf_idfs ! j) = set (tf_idfs ! j) \<and>
      sorted_wrt (\<lambda>e1 e2. snd e2 \<le> snd e1) (sort_tf_idfs tf_idfs ! j) \<and>
      sorted_wrt (\<lambda>e1 e2. snd e1 = snd e2 \<longrightarrow>
                    first_seen_at (keys (tf_idfs ! j)) (fst e1)
                      < first_seen_at (keys (tf_idfs ! j)) (fst e2))
        (sort_tf_idfs tf_idfs ! j))"
proof (intro conjI impI)
  assume i: "i < length articles"
  let ?a = "articles ! i"
  let ?m = "map (\<lambda>w. (w, tf_idf articles ?a w)) (keys (Counter ?a))"
  from calculate_tf_idf_nth[OF i] obtain r where
    r: "calculate_tf_idf articles = Inr r" and len: "length r = length articles"
    and ri: "r ! i = sort_key (\<lambda>x. - snd x) ?m"
    by blast
  have dk: "distinct (keys (r ! i))"
    by (simp only: ri distinct_keys_sort_key keys_map_pair distinct_keys_Counter)
  have "set (r ! i) = (\<lambda>w. (w, tf_idf articles ?a w)) ` set ?a"
    by (simp add: ri set_keys_Counter)
  then have st: "set (r ! i) =
             (\<lambda>w. (w, float_mul
                         (float_div (int (count_list ?a w)) (int (length ?a)))
                         (float_div (int (length articles))
                            (int (length (filter (\<lambda>a. w \<in> set a) articles))))))
               ` set ?a"
    by (simp add: tf_idf_def containing_def)
  have "sorted_wrt (\<lambda>e1 e2. first_seen_at ?a (fst e1) < first_seen_at ?a (fst e2)) ?m"
    using keys_Counter_first_seen[of ?a] by (simp add: sorted_wrt_map)
  from ranked_by_score_then_position[OF this]
  have so: "sorted_wrt (\<lambda>e1 e2. snd e2 \<le> snd e1) (r ! i)"
    and ti: "sorted_wrt (\<lambda>e1 e2. snd e1 = snd e2 \<longrightarrow>
                         first_seen_at ?a (fst e1) < first_seen_at ?a (fst e2)) (r ! i)"
    unfolding ri by simp_all
  from r len dk st so ti
  show "\<exists>r. calculate_tf_idf articles = Inr r \<and> length r = length articles \<and>
           distinct (keys (r ! i)) \<and>
           set (r ! i) =
             (\<lambda>w. (w, float_mul
                         (float_div (int (count_list (articles ! i) w)) (int (length (articles ! i))))
                         (float_div (int (length articles))
                            (int (length (filter (\<lambda>a. w \<in> set a) articles))))))
               ` set (articles ! i) \<and>
           sorted_wrt (\<lambda>e1 e2. snd e2 \<le> snd e1) (r ! i) \<and>
           sorted_wrt (\<lambda>e1 e2. snd e1 = snd e2 \<longrightarrow>
                         first_seen_at (articles ! i) (fst e1) < first_seen_at (articles ! i) (fst e2))
             (r ! i)"
    by blast
next
  assume h: "(\<forall>d\<in>set tf_idfs. distinct (keys d)) \<and> j < length tf_idfs"
  let ?d = "tf_idfs ! j"
  from h have eq: "sort_tf_idfs tf_idfs = map (sort_key (\<lambda>x. - snd x)) tf_idfs"
    by (simp add: sort_tf_idfs_eq)
  from h have sj: "sort_tf_idfs tf_idfs ! j = sort_key (\<lambda>x. - snd x) ?d"
    by (simp add: eq)
  from h have dd: "distinct (keys ?d)" by simp
  show "length (sort_tf_idfs tf_idfs) = length tf_idfs" by (simp add: eq)
  show "distinct (keys (sort_tf_idfs tf_idfs ! j))"
    by (simp only: sj distinct_keys_sort_key dd)
  show "set (sort_tf_idfs tf_idfs ! j) = set (tf_idfs ! j)" by (simp add: sj)
  have "sorted_wrt (\<lambda>e1 e2. first_seen_at (keys ?d) (fst e1) < first_seen_at (keys ?d) (fst e2)) ?d"
    using distinct_first_seen_order[OF dd] by (simp add: keys_def sorted_wrt_map)
  from ranked_by_score_then_position[OF this]
  show "sorted_wrt (\<lambda>e1 e2. snd e2 \<le> snd e1) (sort_tf_idfs tf_idfs ! j)"
    and "sorted_wrt (\<lambda>e1 e2. snd e1 = snd e2 \<longrightarrow>
                    first_seen_at (keys (tf_idfs ! j)) (fst e1)
                      < first_seen_at (keys (tf_idfs ! j)) (fst e2))
        (sort_tf_idfs tf_idfs ! j)"
    unfolding sj by simp_all
qed

theorem ranking_order_witness:
  "(0::nat) < length [[''b'', ''a'', ''c'', ''a'', ''d'', ''c'']] \<and>
   (\<exists>r. calculate_tf_idf [[''b'', ''a'', ''c'', ''a'', ''d'', ''c'']] = Inr r \<and>
        distinct (keys (r ! 0)) \<and>
        set (r ! 0) = {(''a'', float_mul (float_div 2 6) (float_div 1 1)),
                       (''b'', float_mul (float_div 1 6) (float_div 1 1)),
                       (''c'', float_mul (float_div 2 6) (float_div 1 1)),
                       (''d'', float_mul (float_div 1 6) (float_div 1 1))} \<and>
        sorted_wrt (\<lambda>e1 e2. snd e2 \<le> snd e1) (r ! 0)) \<and>
   distinct (keys [(''p'', 1 / 4 :: rat), (''q'', 1 / 2), (''s'', 1 / 4)]) \<and>
   (0::nat) < length [[(''p'', 1 / 4 :: rat), (''q'', 1 / 2), (''s'', 1 / 4)]] \<and>
   set (sort_tf_idfs [[(''p'', 1 / 4), (''q'', 1 / 2), (''s'', 1 / 4)]] ! 0) =
     {(''p'', 1 / 4), (''q'', 1 / 2), (''s'', 1 / 4)}"
proof -
  have "\<exists>r. calculate_tf_idf [[''b'', ''a'', ''c'', ''a'', ''d'', ''c'']] = Inr r \<and>
        distinct (keys (r ! 0)) \<and>
        set (r ! 0) = {(''a'', float_mul (float_div 2 6) (float_div 1 1)),
                       (''b'', float_mul (float_div 1 6) (float_div 1 1)),
                       (''c'', float_mul (float_div 2 6) (float_div 1 1)),
                       (''d'', float_mul (float_div 1 6) (float_div 1 1))} \<and>
        sorted_wrt (\<lambda>e1 e2. snd e2 \<le> snd e1) (r ! 0)"
    using ranking_order [of 0 "[[''b'', ''a'', ''c'', ''a'', ''d'', ''c'']]"
                            "[[(''p'', 1 / 4), (''q'', 1 / 2), (''s'', 1 / 4)]]" 0]
    by (simp add: insert_commute keys_def) blast
  moreover have
    "set (sort_tf_idfs [[(''p'', 1 / 4 :: rat), (''q'', 1 / 2), (''s'', 1 / 4)]] ! 0) =
       {(''p'', 1 / 4), (''q'', 1 / 2), (''s'', 1 / 4)}"
    using ranking_order [of 0 "[[''b'', ''a'', ''c'', ''a'', ''d'', ''c'']]"
                            "[[(''p'', 1 / 4), (''q'', 1 / 2), (''s'', 1 / 4)]]" 0]
    by (simp add: insert_commute keys_def)
  ultimately show ?thesis by (simp add: keys_def)
qed

text \<open>
  An example with two ties: \<open>a\<close> was met before \<open>c\<close>, and \<open>b\<close> before \<open>d\<close>. The scores
  are the floats 0.3333333333333333 and 0.16666666666666666.
\<close>

lemma ranking_example:
  "calculate_tf_idf [[''b'', ''a'', ''c'', ''a'', ''d'', ''c'']] =
     Inr [[(''a'', 6004799503160661 / 18014398509481984),
           (''c'', 6004799503160661 / 18014398509481984),
           (''b'', 6004799503160661 / 36028797018963968),
           (''d'', 6004799503160661 / 36028797018963968)]]"
  by code_simp

text \<open>
  An example in which rounding decides the rank. In the first article \<open>x\<close> has the score
  0.6 * 1.0, the float 0.6, and \<open>y\<close> and \<open>z\<close> have 0.2 * 3.0, the float
  0.6000000000000001: \<open>y\<close> and \<open>z\<close> are ranked before \<open>x\<close>.
\<close>

lemma rounding_decides_rank:
  "calculate_tf_idf [[''x'', ''x'', ''x'', ''y'', ''z''], [''x''], [''x'']] =
     Inr [[(''y'', 1351079888211149 / 2251799813685248),
           (''z'', 1351079888211149 / 2251799813685248),
           (''x'', 5404319552844595 / 9007199254740992)],
          [(''x'', 1)], [(''x'', 1)]]"
  by code_simp

text \<open>
  Claim C9. For a lemma \<open>w\<close> of an article of the corpus, the document-frequency table
  has an entry for \<open>w\<close> with a value of at least 1: the lookup and the division that
  compute \<open>idf\<close> succeed, the article is scored, and \<open>calculate_tf_idf\<close> returns.
\<close>

theorem idf_division_is_safe:
  assumes "article \<in> set articles" and "w \<in> set article"
  shows "\<exists>df n idf r. count_number_of_articles_with_all_words articles = Inr df \<and>
           dict_index df w = Inr n \<and> 1 \<le> n \<and>
           true_div (int (length articles)) n = Inr idf \<and>
           score_article (int (length articles)) df article = Inr (r :: ('k, rat) dict) \<and>
           (\<exists>rs. calculate_tf_idf articles = Inr rs)"
proof -
  from assms have ne: "articles \<noteq> []" by auto
  from assms have occ: "w \<in> set (concat articles)" by auto
  from document_frequency_get[OF ne] obtain df where
    df: "count_number_of_articles_with_all_words articles = Inr df"
    and get: "\<forall>w. dict_get df w =
              (if w \<in> set (concat articles) then Some (int (containing articles w)) else None)"
    by blast
  let ?n = "int (containing articles w)"
  have idx: "dict_index df w = Inr ?n" using get occ by (simp add: dict_index_def del: set_concat)
  have pos: "1 \<le> ?n" using containing_pos[of articles w] occ by linarith
  then have dv: "true_div (int (length articles)) ?n = Inr (float_div (int (length articles)) ?n)"
    by (simp add: true_div_def)
  have "set article \<subseteq> set (concat articles)" using assms(1) by auto
  note sa = score_article_eq[OF this get]
  from df idx pos dv sa calculate_tf_idf_eq[OF ne] show ?thesis by blast
qed

theorem idf_division_is_safe_witness:
  "[''b'', ''c''] \<in> set [[''a'', ''b'', ''a''], [''b'', ''c'']] \<and> ''b'' \<in> set [''b'', ''c''] \<and>
   (\<exists>df n idf r. count_number_of_articles_with_all_words [[''a'', ''b'', ''a''], [''b'', ''c'']] = Inr df \<and>
      dict_index df ''b'' = Inr n \<and> 1 \<le> n \<and>
      true_div (int (length [[''a'', ''b'', ''a''], [''b'', ''c'']])) n = Inr idf \<and>
      score_article (int (length [[''a'', ''b'', ''a''], [''b'', ''c'']])) df [''b'', ''c''] = Inr r \<and>
      (\<exists>rs. calculate_tf_idf [[''a'', ''b'', ''a''], [''b'', ''c'']] = Inr rs))"
  using idf_division_is_safe [of "[''b'', ''c'']" "[[''a'', ''b'', ''a''], [''b'', ''c'']]" "''b''"]
  by simp

section \<open>Claims about the report\<close>

lemma format_term_append: "format_term fs result t = result @ format_term fs [] t"
  by (simp add: format_term_def split: prod.splits)

lemma foldl_format_term:
  "foldl (format_term fs) result terms = result @ concat (map (format_term fs []) terms)"
proof (induction terms arbitrary: result)
  case Nil
  show ?case by simp
next
  case (Cons t terms)
  have "foldl (format_term fs) result (t # terms) =
          format_term fs result t @ concat (map (format_term fs []) terms)"
    by (simp add: Cons.IH)
  also have "format_term fs result t = result @ format_term fs [] t"
    by (rule format_term_append)
  finally show ?case by simp
qed

lemma format_article_eq:
  "format_article fs limit result (index, article) =
     result @ article_header index @
       concat (map (format_term fs []) (emitted_terms article limit))"
  by (simp add: format_article_def foldl_format_term)

lemma foldl_format_article:
  "foldl (format_article fs limit) result entries =
     result @ concat (map (format_article fs limit []) entries)"
proof (induction entries arbitrary: result)
  case Nil
  show ?case by simp
next
  case (Cons e entries)
  obtain index article where e: "e = (index, article)" by (cases e)
  have "foldl (format_article fs limit) result (e # entries) =
          format_article fs limit result e @ concat (map (format_article fs limit []) entries)"
    by (simp add: Cons.IH)
  also have "format_article fs limit result e = result @ format_article fs limit [] e"
    unfolding e format_article_eq[of fs limit result] format_article_eq[of fs limit "[]"] by simp
  finally show ?case by simp
qed

lemma enumerate_as_map: "enumerate n xs = map (\<lambda>j. (n + j, xs ! j)) [0..<length xs]"
  by (rule nth_equalityI) (simp_all add: nth_enumerate_eq)

lemma format_tf_idf_blocks:
  "format_tf_idf fs tf_idfs limit =
     concat (map (\<lambda>j. format_article fs limit [] (j, tf_idfs ! j)) [0..<length tf_idfs])"
  by (simp add: format_tf_idf_def foldl_format_article enumerate_as_map comp_def)

lemma format_tf_idf_take:
  "i \<le> length tf_idfs \<Longrightarrow>
   format_tf_idf fs (take i tf_idfs) limit =
     concat (map (\<lambda>j. format_article fs limit [] (j, tf_idfs ! j)) [0..<i])"
  by (auto simp: format_tf_idf_blocks intro!: arg_cong[where f = concat])

lemma format_tf_idf_split:
  assumes "i < length tf_idfs"
  shows "format_tf_idf fs tf_idfs limit =
           format_tf_idf fs (take i tf_idfs) limit @
           format_article fs limit [] (i, tf_idfs ! i) @
           concat (map (\<lambda>j. format_article fs limit [] (j, tf_idfs ! j)) [Suc i..<length tf_idfs])"
proof -
  have "[0..<length tf_idfs] = [0..<i] @ i # [Suc i..<length tf_idfs]"
    using assms
    by (metis le_add_diff_inverse less_imp_le_nat upt_add_eq_append upt_conv_Cons zero_le)
  then show ?thesis
    using assms by (simp add: format_tf_idf_blocks[of fs tf_idfs] format_tf_idf_take)
qed

text \<open>
  Claim C6. A corpus with an article without lemmas is scored without an exception: the
  loop over the words of that article has no iteration, so no division is evaluated. The
  article gets the empty mapping, and the report holds its header, directly followed by
  the blocks of the later articles.
\<close>

theorem empty_article_is_scored_and_printed:
  assumes "i < length articles" and "articles ! i = []"
  shows "\<exists>r. calculate_tf_idf articles = Inr r \<and> length r = length articles \<and> r ! i = [] \<and>
           format_tf_idf float_str r limit =
             format_tf_idf float_str (take i r) limit @
             ([10] @ ascii ''Article '' @ str_int (int i + 1) @ [10]) @
             concat (map (\<lambda>j. format_article float_str limit [] (j, r ! j)) [Suc i..<length r])"
proof -
  from calculate_tf_idf_nth[OF assms(1)] obtain r where
    r: "calculate_tf_idf articles = Inr r" and len: "length r = length articles"
    and ri: "r ! i = sort_key (\<lambda>x. - snd x)
               (map (\<lambda>w. (w, tf_idf articles (articles ! i) w)) (keys (Counter (articles ! i))))"
    by blast
  have e: "r ! i = []" unfolding ri assms(2) by (simp add: Counter_def keys_def)
  have "format_article float_str limit [] (i, r ! i) =
          [10] @ ascii ''Article '' @ str_int (int i + 1) @ [10]"
    by (simp add: format_article_eq e emitted_terms_def slice_to_def article_header_def)
  with format_tf_idf_split[of i r float_str limit] assms(1) len r e show ?thesis
    by auto
qed

theorem empty_article_is_scored_and_printed_witness:
  "(1::nat) < length [[[97], [98]], [], [[98]]] \<and> [[[97], [98]], [], [[98]]] ! 1 = ([] :: str list) \<and>
   (\<exists>r. calculate_tf_idf [[[97], [98]], [], [[98]]] = Inr r \<and>
      length r = length [[[97], [98]], [], [[98::nat]]] \<and> r ! 1 = [] \<and>
      format_tf_idf (\<lambda>x. []) r 20 =
        format_tf_idf (\<lambda>x. []) (take 1 r) 20 @
        ([10] @ ascii ''Article '' @ str_int (int 1 + 1) @ [10]) @
        concat (map (\<lambda>j. format_article (\<lambda>x. []) 20 [] (j, r ! j)) [Suc 1..<length r]))"
  using empty_article_is_scored_and_printed [of 1 "[[[97], [98]], [], [[98]]]" "\<lambda>x. []" 20]
  by simp







section \<open>Claims about the token normalizer\<close>

lemma foldl_append_if:
  "foldl (\<lambda>acc x. if P x then acc @ [x] else acc) acc xs = acc @ filter P xs"
  by (induction xs arbitrary: acc) auto

lemma foldl_append_map:
  "foldl (\<lambda>acc x. acc @ [f x]) acc xs = acc @ map f xs"
  by (induction xs arbitrary: acc) auto

lemma re_search_class: "re_search [p] word = (\<exists>c\<in>set word. p c)"
  by (induction word) auto

lemma alphabetical_iff:
  "alphabetical c \<longleftrightarrow>
     (latin_letter c \<or> russian_letter c \<or> c = 45) \<and> c \<noteq> 1105 \<and> c \<noteq> 1025"
  by (auto simp: alphabetical_def latin_letter_def russian_letter_def)

lemma all_in_class_but_two:
  assumes "\<And>c. A c \<longleftrightarrow> L c \<and> c \<noteq> a \<and> c \<noteq> b"
  shows "((\<exists>c\<in>S. A c) \<and> (\<forall>c\<in>S. A c)) \<longleftrightarrow>
         ((\<exists>c\<in>S. L c) \<and> (\<forall>c\<in>S. L c) \<and> a \<notin> S \<and> b \<notin> S)"
  using assms by blast

lemma is_alphabetical_word_iff:
  "is_alphabetical_word word \<longleftrightarrow>
     (\<exists>c\<in>set word. alphabetical c) \<and> (\<forall>c\<in>set word. alphabetical c)"
  by (simp add: is_alphabetical_word_def re_search_class non_alphabetical_def)

lemma remove_non_alphabetical_words_filter:
  "remove_non_alphabetical_words words = filter is_alphabetical_word words"
  by (simp add: remove_non_alphabetical_words_def foldl_append_if)

lemma remove_stop_words_filter:
  "remove_stop_words stop_words words = filter (\<lambda>w. w \<notin> set stop_words) words"
  by (simp add: remove_stop_words_def foldl_append_if)

lemma remove_junk_from_articles_map:
  "remove_junk_from_articles stop_words articles =
     map (\<lambda>a. remove_non_alphabetical_words (remove_stop_words stop_words a)) articles"
  by (simp add: remove_junk_from_articles_def foldl_append_map)

lemma lemmatize_articles_map:
  "lemmatize_articles normal_form articles = map (map normal_form) articles"
  by (simp add: lemmatize_articles_def foldl_append_map)

text \<open>
  Claim C8. The claim, like the docstring of \<open>remove_non_alphabetical_words\<close>, has the
  filter keep every token that has a letter or a hyphen and nothing else. The filter does
  so for the tokens without the letter yo, in their order and with their repetitions, and
  treats the six tokens of the specification as it says; but its ranges leave out U+0451
  and U+0401, and the token of the two Russian letters U+0451 U+0436 (the word for
  hedgehog) is dropped.
\<close>

theorem alphabetic_filter_drops_yo:
  "remove_non_alphabetical_words words =
     filter (\<lambda>word. (\<exists>c\<in>set word. latin_letter c \<or> russian_letter c \<or> c = 45) \<and>
                    (\<forall>c\<in>set word. latin_letter c \<or> russian_letter c \<or> c = 45) \<and>
                    1105 \<notin> set word \<and> 1025 \<notin> set word) words \<and>
   remove_non_alphabetical_words [ascii ''abc123''] = [] \<and>
   remove_non_alphabetical_words [ascii ''123''] = [] \<and>
   remove_non_alphabetical_words [ascii ''!!''] = [] \<and>
   remove_non_alphabetical_words [ascii ''co-op''] = [ascii ''co-op''] \<and>
   remove_non_alphabetical_words [[1089, 1083, 1086, 1074, 1086]] = [[1089, 1083, 1086, 1074, 1086]] \<and>
   remove_non_alphabetical_words [ascii ''word''] = [ascii ''word''] \<and>
   (\<exists>c\<in>set [1105, 1078]. latin_letter c \<or> russian_letter c \<or> c = 45) \<and>
   (\<forall>c\<in>set [1105, 1078]. latin_letter c \<or> russian_letter c \<or> c = 45) \<and>
   remove_non_alphabetical_words [[1105, 1078]] = []"
proof -
  have "is_alphabetical_word =
          (\<lambda>word. (\<exists>c\<in>set word. latin_letter c \<or> russian_letter c \<or> c = 45) \<and>
                    (\<forall>c\<in>set word. latin_letter c \<or> russian_letter c \<or> c = 45) \<and>
                    1105 \<notin> set word \<and> 1025 \<notin> set word)"
    unfolding fun_eq_iff is_alphabetical_word_iff
    using all_in_class_but_two[of alphabetical "\<lambda>c. latin_letter c \<or> russian_letter c \<or> c = 45",
            OF alphabetical_iff]
    by simp
  then have "remove_non_alphabetical_words words =
     filter (\<lambda>word. (\<exists>c\<in>set word. latin_letter c \<or> russian_letter c \<or> c = 45) \<and>
                    (\<forall>c\<in>set word. latin_letter c \<or> russian_letter c \<or> c = 45) \<and>
                    1105 \<notin> set word \<and> 1025 \<notin> set word) words"
    by (simp add: remove_non_alphabetical_words_filter)
  moreover have "remove_non_alphabetical_words [ascii ''abc123''] = []"
    by (simp add: remove_non_alphabetical_words_filter is_alphabetical_word_iff alphabetical_def ascii_def)
  moreover have "remove_non_alphabetical_words [ascii ''123''] = []"
    by (simp add: remove_non_alphabetical_words_filter is_alphabetical_word_iff alphabetical_def ascii_def)
  moreover have "remove_non_alphabetical_words [ascii ''!!''] = []"
    by (simp add: remove_non_alphabetical_words_filter is_alphabetical_word_iff alphabetical_def ascii_def)
  moreover have "remove_non_alphabetical_words [ascii ''co-op''] = [ascii ''co-op'']"
    by (simp add: remove_non_alphabetical_words_filter is_alphabetical_word_iff alphabetical_def ascii_def)
  moreover have "remove_non_alphabetical_words [[1089, 1083, 1086, 1074, 1086]] = [[1089, 1083, 1086, 1074, 1086]]"
    by (simp add: remove_non_alphabetical_words_filter is_alphabetical_word_iff alphabetical_def)
  moreover have "remove_non_alphabetical_words [ascii ''word''] = [ascii ''word'']"
    by (simp add: remove_non_alphabetical_words_filter is_alphabetical_word_iff alphabetical_def ascii_def)
  moreover have "\<exists>c\<in>set [1105, 1078]. latin_letter c \<or> russian_letter c \<or> c = 45"
    by (simp add: russian_letter_def)
  moreover have "\<forall>c\<in>set [1105, 1078]. latin_letter c \<or> russian_letter c \<or> c = 45"
    by (simp add: russian_letter_def)
  moreover have "remove_non_alphabetical_words [[1105, 1078]] = []"
    by (simp add: remove_non_alphabetical_words_filter is_alphabetical_word_iff alphabetical_def)
  ultimately show ?thesis by blast
qed

theorem alphabetic_filter_drops_yo_witness:
  "remove_non_alphabetical_words
     [ascii ''word'', ascii ''abc123'', ascii ''co-op'', ascii ''123'', ascii ''word'', ascii ''!!'',
      [1089, 1083, 1086, 1074, 1086], [1105, 1078], ascii ''--'', [], [1077, 1097, 1105]] =
     [ascii ''word'', ascii ''co-op'', ascii ''word'', [1089, 1083, 1086, 1074, 1086], ascii ''--'']"
  using alphabetic_filter_drops_yo
    [of "[ascii ''word'', ascii ''abc123'', ascii ''co-op'', ascii ''123'', ascii ''word'', ascii ''!!'',
      [1089, 1083, 1086, 1074, 1086], [1105, 1078], ascii ''--'', [], [1077, 1097, 1105]]"]
  by (simp add: latin_letter_def russian_letter_def ascii_def)

text \<open>
  Claim C10. The class of the filter is exactly the four ranges and the hyphen, and the
  code points U+0451 and U+0401 of the letter yo lie outside of them: a token with one of
  them is rejected. No such token is left in the articles that are handed to the
  lemmatizer, so that the lemma lists do not depend on what the lemmatizer would return
  for such a token.
\<close>

theorem yo_is_rejected:
  "((1105 \<in> set word \<or> 1025 \<in> set word) \<longrightarrow>
      \<not> is_alphabetical_word word \<and> word \<notin> set (remove_non_alphabetical_words words)) \<and>
   (alphabetical c \<longleftrightarrow>
      c \<in> {97..122} \<union> {65..90} \<union> {1072..1103} \<union> {1040..1071} \<union> {45}) \<and>
   \<not> alphabetical 1105 \<and> \<not> alphabetical 1025 \<and>
   (\<forall>article\<in>set (remove_junk_from_articles stop_words articles).
      \<forall>token\<in>set article. 1105 \<notin> set token \<and> 1025 \<notin> set token) \<and>
   ((\<forall>token. 1105 \<notin> set token \<and> 1025 \<notin> set token \<longrightarrow> normal_form token = normal_form' token) \<longrightarrow>
      lemmatize_articles normal_form (remove_junk_from_articles stop_words articles) =
      lemmatize_articles normal_form' (remove_junk_from_articles stop_words articles)) \<and>
   remove_non_alphabetical_words [[1077, 1097, 1105]] = []"
proof -
  have no: "\<not> alphabetical 1105" "\<not> alphabetical 1025"
    by (simp_all add: alphabetical_def)
  have rej: "\<not> is_alphabetical_word w" if "1105 \<in> set w \<or> 1025 \<in> set w" for w
    using that no by (auto simp: is_alphabetical_word_iff)
  have clean: "1105 \<notin> set token \<and> 1025 \<notin> set token"
    if "article \<in> set (remove_junk_from_articles stop_words articles)" "token \<in> set article"
    for article token
    using that rej[of token]
    by (auto simp: remove_junk_from_articles_map remove_non_alphabetical_words_filter)
  have "lemmatize_articles normal_form (remove_junk_from_articles stop_words articles) =
        lemmatize_articles normal_form' (remove_junk_from_articles stop_words articles)"
    if "\<forall>token. 1105 \<notin> set token \<and> 1025 \<notin> set token \<longrightarrow> normal_form token = normal_form' token"
    unfolding lemmatize_articles_map
    by (intro map_cong refl) (use that clean in blast)
  moreover have "alphabetical c \<longleftrightarrow>
      c \<in> {97..122} \<union> {65..90} \<union> {1072..1103} \<union> {1040..1071} \<union> {45}"
    by (auto simp: alphabetical_def)
  moreover have "remove_non_alphabetical_words [[1077, 1097, 1105]] = []"
    using rej[of "[1077, 1097, 1105]"] by (simp add: remove_non_alphabetical_words_filter)
  ultimately show ?thesis
    using no rej clean by (simp add: remove_non_alphabetical_words_filter)
qed

theorem yo_is_rejected_witness:
  "1105 \<in> set [1077, 1097, 1105 :: nat] \<and>
   \<not> is_alphabetical_word [1077, 1097, 1105] \<and>
   [1077, 1097, 1105] \<notin> set (remove_non_alphabetical_words [[1077, 1097, 1105], ascii ''word'']) \<and>
   lemmatize_articles (\<lambda>token. token)
       (remove_junk_from_articles [] [[[1077, 1097, 1105], ascii ''word'']]) =
     lemmatize_articles (\<lambda>token. if 1105 \<in> set token \<or> 1025 \<in> set token then [] else token)
       (remove_junk_from_articles [] [[[1077, 1097, 1105], ascii ''word'']])"
  using yo_is_rejected
    [of "[1077, 1097, 1105]" "[[1077, 1097, 1105], ascii ''word'']" 0 "[]"
        "[[[1077, 1097, 1105], ascii ''word'']]" "\<lambda>token. token"
        "\<lambda>token. if 1105 \<in> set token \<or> 1025 \<in> set token then [] else token"]
  by simp

section \<open>Claims about the segmenter\<close>

lemma match_here_length: "match_here pat t \<Longrightarrow> length pat \<le> length t"
  by (induction pat t rule: match_here.induct) auto

lemma match_here_take: "match_here pat t \<Longrightarrow> match_here pat (take (length pat) t)"
  by (induction pat t rule: match_here.induct) auto

lemma match_here_Cons:
  "match_here (p # ps) t \<longleftrightarrow> (\<exists>c cs. t = c # cs \<and> p c \<and> match_here ps cs)"
  by (cases t) auto

lemma re_split_from_decomposition:
  assumes "pat \<noteq> []"
  shows "\<exists>first rest markers. re_split_from pat piece t = first # rest \<and>
           length markers = length rest \<and>
           (\<forall>m\<in>set markers. match_here pat m \<and> length m = length pat) \<and>
           piece @ t = first @ concat (map2 (@) markers rest)"
  using assms
proof (induction pat piece t rule: re_split_from.induct)
  case (1 pat piece)
  show ?case by simp
next
  case (2 pat piece c cs)
  show ?case
  proof (cases "match_here pat (c # cs)")
    case True
    let ?n = "length pat"
    let ?m = "take ?n (c # cs)"
    from 2(1)[OF True 2(3)] obtain first rest markers where
      ih: "re_split_from pat [] (drop (?n - 1) cs) = first # rest" "length markers = length rest"
        "\<forall>m\<in>set markers. match_here pat m \<and> length m = length pat"
        "[] @ drop (?n - 1) cs = first @ concat (map2 (@) markers rest)"
      by blast
    have m: "match_here pat ?m" "length ?m = ?n"
      using match_here_take[OF True] match_here_length[OF True] by simp_all
    have dr: "drop (?n - 1) cs = drop ?n (c # cs)"
      using 2(3) by (cases pat) simp_all
    have "piece @ c # cs = piece @ ?m @ drop ?n (c # cs)"
      by (simp only: append_take_drop_id)
    also have "\<dots> = piece @ concat (map2 (@) (?m # markers) (first # rest))"
      using ih(4) dr by simp
    finally have dec: "piece @ c # cs = piece @ concat (map2 (@) (?m # markers) (first # rest))" .
    have "re_split_from pat piece (c # cs) = piece # first # rest"
      using True ih(1) by simp
    moreover have "length (?m # markers) = length (first # rest)"
      using ih(2) by simp
    moreover have "\<forall>x\<in>set (?m # markers). match_here pat x \<and> length x = length pat"
      using m ih(3) by simp
    ultimately show ?thesis using dec by blast
  next
    case False
    with 2(2)[OF False 2(3)] show ?thesis by simp
  qed
qed

lemma occurrences_skip:
  "(\<forall>i<k. \<not> match_here pat (drop i t)) \<Longrightarrow> occurrences pat t = occurrences pat (drop k t)"
proof (induction t arbitrary: k)
  case Nil
  show ?case by simp
next
  case (Cons c cs)
  show ?case
  proof (cases k)
    case 0
    then show ?thesis by simp
  next
    case (Suc k')
    from Cons.prems Suc have "\<not> match_here pat (c # cs)" by force
    moreover have "\<forall>i<k'. \<not> match_here pat (drop i cs)"
      using Cons.prems Suc by force
    ultimately show ?thesis using Cons.IH[of k'] Suc by simp
  qed
qed

lemma length_re_split_from:
  assumes "pat \<noteq> []"
    and "\<forall>u i. match_here pat u \<and> 0 < i \<and> i < length pat \<longrightarrow> \<not> match_here pat (drop i u)"
  shows "length (re_split_from pat piece t) = Suc (occurrences pat t)"
  using assms
proof (induction pat piece t rule: re_split_from.induct)
  case (1 pat piece)
  then show ?case by (cases pat) simp_all
next
  case (2 pat piece c cs)
  show ?case
  proof (cases "match_here pat (c # cs)")
    case True
    have "\<forall>i<length pat - 1. \<not> match_here pat (drop i cs)"
    proof (intro allI impI)
      fix i assume "i < length pat - 1"
      then have "0 < Suc i" "Suc i < length pat" by simp_all
      with 2(4) True have "\<not> match_here pat (drop (Suc i) (c # cs))"
        by blast
      then show "\<not> match_here pat (drop i cs)" by simp
    qed
    then have "occurrences pat cs = occurrences pat (drop (length pat - 1) cs)"
      by (rule occurrences_skip)
    with 2(1)[OF True 2(3,4)] True show ?thesis by simp
  next
    case False
    with 2(2)[OF False 2(3,4)] show ?thesis by simp
  qed
qed

lemma re_split_from_first:
  "\<exists>f tail rest. re_split_from pat piece t = (piece @ f) # rest \<and> t = f @ tail \<and>
      (tail = [] \<or> match_here pat tail) \<and> (\<forall>i<length f. \<not> match_here pat (drop i t))"
proof (induction pat piece t rule: re_split_from.induct)
  case (1 pat piece)
  show ?case by simp
next
  case (2 pat piece c cs)
  show ?case
  proof (cases "match_here pat (c # cs)")
    case True
    then have "re_split_from pat piece (c # cs) =
                 (piece @ []) # re_split_from pat [] (drop (length pat - 1) cs) \<and>
               c # cs = [] @ (c # cs) \<and> (c # cs = [] \<or> match_here pat (c # cs)) \<and>
               (\<forall>i<length ([]::str). \<not> match_here pat (drop i (c # cs)))"
      by simp
    then show ?thesis by blast
  next
    case False
    from 2(2)[OF False] obtain f tail rest where
      ih: "re_split_from pat (piece @ [c]) cs = ((piece @ [c]) @ f) # rest" "cs = f @ tail"
        "tail = [] \<or> match_here pat tail" "\<forall>i<length f. \<not> match_here pat (drop i cs)"
      by blast
    have "\<forall>i<length (c # f). \<not> match_here pat (drop i (c # cs))"
    proof (intro allI impI)
      fix i assume "i < length (c # f)"
      then show "\<not> match_here pat (drop i (c # cs))"
        using False ih(4) by (cases i) simp_all
    qed
    moreover have "re_split_from pat piece (c # cs) = (piece @ (c # f)) # rest"
      using False ih(1) by simp
    moreover have "c # cs = (c # f) @ tail" using ih(2) by simp
    ultimately show ?thesis using ih(3) by blast
  qed
qed

lemma start_marker_form:
  "match_here (start_marker decimal) t \<longleftrightarrow>
     (\<exists>d1 d2 d3 rest. t = 1059 # 1044 # 1050 # 32 # d1 # d2 # d3 # 46 # rest \<and>
        decimal d1 \<and> decimal d2 \<and> decimal d3)"
  by (auto simp: start_marker_def match_here_Cons lit_def)

lemma start_marker_no_self_overlap:
  assumes "\<not> decimal 1059"
  shows "\<forall>u i. match_here (start_marker decimal) u \<and> 0 < i \<and> i < length (start_marker decimal)
           \<longrightarrow> \<not> match_here (start_marker decimal) (drop i u)"
proof (intro allI impI)
  fix u i
  assume a: "match_here (start_marker decimal) u \<and> 0 < i \<and> i < length (start_marker decimal)"
  then obtain d1 d2 d3 rest where
    u: "u = 1059 # 1044 # 1050 # 32 # d1 # d2 # d3 # 46 # rest"
    and d: "decimal d1" "decimal d2" "decimal d3"
    unfolding start_marker_form by blast
  from d assms have ne: "d1 \<noteq> 1059" "d2 \<noteq> 1059" "d3 \<noteq> 1059" by auto
  from a have "i = 1 \<or> i = 2 \<or> i = 3 \<or> i = 4 \<or> i = 5 \<or> i = 6 \<or> i = 7"
    by (auto simp: start_marker_def)
  then show "\<not> match_here (start_marker decimal) (drop i u)"
    unfolding start_marker_form u using ne by auto
qed

lemma re_split_nonempty: "re_split pat t \<noteq> []"
  unfolding re_split_def using re_split_from_first[of pat "[]" t] by auto

lemma truncate_articles_eq:
  "truncate_articles segments articles =
     Inr (articles @ map (\<lambda>s. hd (re_split end_marker s)) segments)"
proof (induction segments arbitrary: articles)
  case Nil
  show ?case by simp
next
  case (Cons s segments)
  obtain p ps where "re_split end_marker s = p # ps"
    using re_split_nonempty[of end_marker s] by (cases "re_split end_marker s") auto
  then show ?case by (simp add: Cons.IH first_item_def)
qed

lemma truncated_article:
  "\<exists>rest. s = hd (re_split end_marker s) @ rest \<and> (rest = [] \<or> match_here end_marker rest) \<and>
     (\<forall>i<length (hd (re_split end_marker s)). \<not> match_here end_marker (drop i s))"
  unfolding re_split_def using re_split_from_first[of end_marker "[]" s] by auto

lemma example_split:
  assumes "decimal 48" "decimal 52" "decimal 53"
  shows "split_text_into_articles decimal example_text = Inr [ascii ''foo '', ascii ''baz'']"
  using assms
  by (simp add: split_text_into_articles_def re_split_def example_text_def ascii_def
        start_marker_def end_marker_def lit_def first_item_def)

text \<open>
  Claim C4, amended. For every text the segmenter returns, without an exception, one
  article for each occurrence of the start marker. The text is the preamble, which is
  dropped, followed by marker and segment in turn; each article is its segment up to the
  first occurrence of the end marker, and the whole segment when there is none; no
  occurrence of the start marker begins in the preamble. The
  example text of the specification gives the two articles \<open>foo \<close> and \<open>baz\<close>. The
  table of decimal digits is the parameter \<open>decimal\<close>; it holds the ASCII digits and
  not the letter U+0423, with which the start marker begins.
\<close>

theorem segmentation:
  assumes "\<forall>c. ascii_decimal c \<longrightarrow> decimal c" and "\<not> decimal 1059"
  shows "\<exists>articles preamble markers segments.
           split_text_into_articles decimal t = Inr articles \<and>
           length articles = occurrences (start_marker decimal) t \<and>
           length markers = length articles \<and> length segments = length articles \<and>
           t = preamble @ concat (map2 (@) markers segments) \<and>
           (\<forall>i<length preamble. \<not> match_here (start_marker decimal) (drop i t)) \<and>
           (\<forall>m\<in>set markers. match_here (start_marker decimal) m \<and> length m = 8) \<and>
           (\<forall>j<length articles. \<exists>rest.
              segments ! j = articles ! j @ rest \<and>
              (rest = [] \<or> match_here end_marker rest) \<and>
              (\<forall>i<length (articles ! j). \<not> match_here end_marker (drop i (segments ! j)))) \<and>
           split_text_into_articles decimal example_text = Inr [ascii ''foo '', ascii ''baz'']"
proof -
  let ?start = "start_marker decimal"
  have ne: "?start \<noteq> []" by (simp add: start_marker_def)
  from re_split_from_decomposition[OF ne, of "[]" t] obtain preamble segments markers where
    sp: "re_split ?start t = preamble # segments" and lm: "length markers = length segments"
    and mk: "\<forall>m\<in>set markers. match_here ?start m \<and> length m = length ?start"
    and dec: "t = preamble @ concat (map2 (@) markers segments)"
    unfolding re_split_def by auto
  have pre: "\<forall>i<length preamble. \<not> match_here ?start (drop i t)"
    using re_split_from_first[of ?start "[]" t] sp unfolding re_split_def by auto
  let ?articles = "map (\<lambda>s. hd (re_split end_marker s)) segments"
  have res: "split_text_into_articles decimal t = Inr ?articles"
    by (simp add: split_text_into_articles_def sp truncate_articles_eq)
  note ov = start_marker_no_self_overlap[of decimal, OF assms(2)]
  have "length (re_split ?start t) = Suc (occurrences ?start t)"
    unfolding re_split_def by (rule length_re_split_from[OF ne ov])
  then have cnt: "length ?articles = occurrences ?start t" by (simp add: sp)
  have mk8: "\<forall>m\<in>set markers. match_here ?start m \<and> length m = 8"
    using mk by (simp add: start_marker_def)
  have tr: "\<forall>j<length ?articles. \<exists>rest.
              segments ! j = ?articles ! j @ rest \<and>
              (rest = [] \<or> match_here end_marker rest) \<and>
              (\<forall>i<length (?articles ! j). \<not> match_here end_marker (drop i (segments ! j)))"
    using truncated_article by simp
  have "decimal 48" "decimal 52" "decimal 53"
    using assms(1) by (simp_all add: ascii_decimal_def)
  then have ex: "split_text_into_articles decimal example_text = Inr [ascii ''foo '', ascii ''baz'']"
    by (rule example_split)
  have "split_text_into_articles decimal t = Inr ?articles \<and>
        length ?articles = occurrences ?start t \<and>
        length markers = length ?articles \<and> length segments = length ?articles \<and>
        t = preamble @ concat (map2 (@) markers segments) \<and>
        (\<forall>i<length preamble. \<not> match_here ?start (drop i t)) \<and>
        (\<forall>m\<in>set markers. match_here ?start m \<and> length m = 8) \<and>
        (\<forall>j<length ?articles. \<exists>rest.
              segments ! j = ?articles ! j @ rest \<and>
              (rest = [] \<or> match_here end_marker rest) \<and>
              (\<forall>i<length (?articles ! j). \<not> match_here end_marker (drop i (segments ! j)))) \<and>
        split_text_into_articles decimal example_text = Inr [ascii ''foo '', ascii ''baz'']"
    using res cnt lm dec pre mk8 tr ex by simp
  then show ?thesis by blast
qed

theorem segmentation_witness:
  "\<not> ascii_decimal 1059 \<and>
   (\<exists>articles preamble markers segments.
      split_text_into_articles ascii_decimal example_text = Inr articles \<and>
      length articles = 2 \<and>
      length markers = length articles \<and> length segments = length articles \<and>
      example_text = preamble @ concat (map2 (@) markers segments))"
proof -
  have h: "\<not> ascii_decimal 1059" by (simp add: ascii_decimal_def)
  have o: "occurrences (start_marker ascii_decimal) example_text = 2"
    by (simp add: example_text_def ascii_def start_marker_def lit_def ascii_decimal_def)
  from segmentation [of ascii_decimal example_text] h o show ?thesis
    by auto
qed

text \<open>
  Claim C4 as stated gives \<open> baz\<close>, with a leading space, as the second article of the
  example. The start marker ends with the full stop after the three digits, and in the
  example text \<open>baz\<close> follows that full stop directly.
\<close>

theorem second_example_article_has_no_leading_space:
  "split_text_into_articles ascii_decimal example_text = Inr [ascii ''foo '', ascii ''baz''] \<and>
   split_text_into_articles ascii_decimal example_text \<noteq> Inr [ascii ''foo '', ascii '' baz'']"
  by (simp add: example_split ascii_decimal_def ascii_def)

end
